theory Spec2Isabelle
  imports Main "HOL-Library.Word"
begin

section \<open>JavaScript strings\<close>

text \<open>
  A JavaScript string is a sequence of 16-bit code units.  String literals of the
  source that are plain ASCII are written \<open>js ''...''\<close>; the Chinese messages
  of \<^verbatim>\<open>server.js\<close> are given by their code units.
\<close>

type_synonym jschar = "16 word"
type_synonym jsstring = "jschar list"

definition js :: "string \<Rightarrow> jsstring" where
  "js s = map of_char s"

text \<open>
  \<^verbatim>\<open>String.prototype.trim\<close> strips WhiteSpace and LineTerminator code points
  from both ends: TAB, VT, FF, SP, NBSP, ZWNBSP, the category Zs, LF, CR, LS, PS.
\<close>

definition is_js_space :: "jschar \<Rightarrow> bool" where
  "is_js_space c \<longleftrightarrow>
     c \<in> set [0x09, 0x0A, 0x0B, 0x0C, 0x0D, 0x20, 0xA0, 0x1680, 0x2028, 0x2029,
              0x202F, 0x205F, 0x3000, 0xFEFF]
     \<or> (0x2000 \<le> c \<and> c \<le> 0x200A)"

definition trim :: "jsstring \<Rightarrow> jsstring" where
  "trim s = rev (dropWhile is_js_space (rev (dropWhile is_js_space s)))"

text \<open>Decimal digits of a natural number, most significant first.\<close>

definition digit_char :: "nat \<Rightarrow> jschar" where
  "digit_char d = of_nat (48 + d)"

fun digits_of :: "nat \<Rightarrow> jsstring" where
  "digits_of n = (if n < 10 then [digit_char n] else digits_of (n div 10) @ [digit_char (n mod 10)])"

declare digits_of.simps [simp del]

text \<open>
  \<^verbatim>\<open>Date.now().toString()\<close>: \<^verbatim>\<open>Date.now()\<close> is an integral number of
  milliseconds, far below \<open>10^21\<close> in magnitude, so \<^verbatim>\<open>Number.prototype.toString\<close>
  gives its plain decimal digits, with a minus sign when it is negative.
\<close>

definition int_toString :: "int \<Rightarrow> jsstring" where
  "int_toString i = (if i < 0 then 0x2D # digits_of (nat (- i)) else digits_of (nat i))"


section \<open>JSON values\<close>

text \<open>
  The values the program handles all come from \<^verbatim>\<open>JSON.parse\<close> (the data file,
  the request body) or are object literals of strings.  \<open>JObj\<close> lists the own
  properties of an object in property order.  A number is a binary64 value:
  \<open>Finite s m e\<close> is \<open>m * 2^e\<close>, negative when \<open>s\<close> holds.  It is in normal form
  when \<open>m < 2^53\<close>, \<open>-1074 \<le> e \<le> 971\<close>, and \<open>2^52 \<le> m\<close> unless \<open>e = -1074\<close>
  (the subnormal numbers and the two zeros, which have \<open>m = 0\<close>).  \<^verbatim>\<open>JSON.parse\<close>
  gives no NaN, and the program never computes with numbers: it tests them for
  truthiness and writes them back.
\<close>

datatype double = Finite bool nat int | Infinite bool

datatype json =
    JNull
  | JBool bool
  | JNum double
  | JStr jsstring
  | JArr "json list"
  | JObj "(jsstring \<times> json) list"

datatype error = TypeError | SyntaxError | IOError

text \<open>
  The Number value for the rational \<open>num / den\<close> (\<open>0 < den\<close>) with sign \<open>neg\<close>: the
  nearest binary64 value, a tie going to the even mantissa; a magnitude that rounds to
  \<open>2^1024\<close> or more gives the infinity, one that rounds to zero the zero of that sign.
  \<open>bitlen n\<close> is the number of binary digits of \<open>n\<close>, so the quotient lies strictly
  between \<open>2^(b - 1)\<close> and \<open>2^(b + 1)\<close> for the difference \<open>b\<close> of the bit lengths, and
  \<open>fl\<close> is the integer part of its binary logarithm.
\<close>

fun bitlen :: "nat \<Rightarrow> nat" where
  "bitlen n = (if n = 0 then 0 else Suc (bitlen (n div 2)))"

declare bitlen.simps [simp del]

definition round_half_even :: "nat \<Rightarrow> nat \<Rightarrow> nat" where
  "round_half_even n d =
     (let q = n div d; r = n mod d
      in if 2 * r < d then q else if d < 2 * r then q + 1 else if even q then q else q + 1)"

definition to_double :: "bool \<Rightarrow> nat \<Rightarrow> nat \<Rightarrow> double" where
  "to_double neg num den =
     (if num = 0 then Finite neg 0 (- 1074)
      else
        let b = int (bitlen num) - int (bitlen den);
            fl = (if (if 0 \<le> b then den * 2 ^ nat b \<le> num else den \<le> num * 2 ^ nat (- b))
                  then b else b - 1);
            e = max (fl - 52) (- 1074);
            m = (if 0 \<le> e then round_half_even num (den * 2 ^ nat e)
                 else round_half_even (num * 2 ^ nat (- e)) den);
            m' = (if m = 2 ^ 53 then 2 ^ 52 else m);
            e' = (if m = 2 ^ 53 then e + 1 else e)
        in if 971 < e' then Infinite neg else Finite neg m' e')"

text \<open>The Number value for the decimal \<open>s * 10^c\<close>.\<close>

definition of_decimal :: "bool \<Rightarrow> nat \<Rightarrow> int \<Rightarrow> double" where
  "of_decimal neg s c =
     (if 0 \<le> c then to_double neg (s * 10 ^ nat c) 1 else to_double neg s (10 ^ nat (- c)))"

text \<open>\<^verbatim>\<open>ToBoolean\<close>, as used by \<^verbatim>\<open>||\<close>, \<^verbatim>\<open>!\<close> and \<^verbatim>\<open>if\<close>.\<close>

fun truthy :: "json \<Rightarrow> bool" where
  "truthy JNull = False"
| "truthy (JBool b) = b"
| "truthy (JNum (Finite s m e)) = (m \<noteq> 0)"
| "truthy (JNum (Infinite s)) = True"
| "truthy (JStr s) = (s \<noteq> [])"
| "truthy (JArr xs) = True"
| "truthy (JObj ps) = True"

text \<open>
  Property read \<^verbatim>\<open>v.k\<close> for the keys the program reads (\<^verbatim>\<open>id\<close>, \<^verbatim>\<open>name\<close>,
  \<^verbatim>\<open>phone\<close>), which no built-in prototype defines: on \<^verbatim>\<open>null\<close> it throws a
  TypeError, on an object it is the own property or \<^verbatim>\<open>undefined\<close> (\<open>None\<close>), on
  every other value it is \<^verbatim>\<open>undefined\<close>.
\<close>

definition get_prop :: "json \<Rightarrow> jsstring \<Rightarrow> error + json option" where
  "get_prop v k =
     (case v of
        JNull \<Rightarrow> Inl TypeError
      | JObj ps \<Rightarrow> Inr (map_of ps k)
      | _ \<Rightarrow> Inr None)"


section \<open>\<^verbatim>\<open>JSON.stringify(value, null, 2)\<close>\<close>

definition is_high_surrogate :: "jschar \<Rightarrow> bool" where
  "is_high_surrogate c \<longleftrightarrow> 0xD800 \<le> c \<and> c \<le> 0xDBFF"

definition is_low_surrogate :: "jschar \<Rightarrow> bool" where
  "is_low_surrogate c \<longleftrightarrow> 0xDC00 \<le> c \<and> c \<le> 0xDFFF"

definition hex_digit :: "nat \<Rightarrow> jschar" where
  "hex_digit d = (if d < 10 then of_nat (48 + d) else of_nat (87 + d))"

definition unicode_escape :: "jschar \<Rightarrow> jsstring" where
  "unicode_escape c =
     [0x5C, 0x75, hex_digit (unat c div 4096), hex_digit (unat c div 256 mod 16),
      hex_digit (unat c div 16 mod 16), hex_digit (unat c mod 16)]"

text \<open>One code unit that is not a surrogate, as \<^verbatim>\<open>QuoteJSONString\<close> writes it.\<close>

definition quote_char :: "jschar \<Rightarrow> jsstring" where
  "quote_char c =
     (if c = 0x08 then [0x5C, 0x62]
      else if c = 0x09 then [0x5C, 0x74]
      else if c = 0x0A then [0x5C, 0x6E]
      else if c = 0x0C then [0x5C, 0x66]
      else if c = 0x0D then [0x5C, 0x72]
      else if c = 0x22 then [0x5C, 0x22]
      else if c = 0x5C then [0x5C, 0x5C]
      else if c < 0x20 then unicode_escape c
      else [c])"

text \<open>
  A surrogate pair is copied, a lone surrogate is written as a \<^verbatim>\<open>\uXXXX\<close> escape
  (well-formed \<^verbatim>\<open>JSON.stringify\<close>).
\<close>

fun quote_chars :: "jsstring \<Rightarrow> jsstring" where
  "quote_chars [] = []"
| "quote_chars (c # cs) =
     (if is_high_surrogate c then
        (case cs of
           [] \<Rightarrow> unicode_escape c
         | d # ds \<Rightarrow>
             if is_low_surrogate d then c # d # quote_chars ds
             else unicode_escape c @ quote_chars cs)
      else if is_low_surrogate c then unicode_escape c @ quote_chars cs
      else quote_char c @ quote_chars cs)"

definition QuoteJSONString :: "jsstring \<Rightarrow> jsstring" where
  "QuoteJSONString s = 0x22 # quote_chars s @ [0x22]"

text \<open>
  \<^verbatim>\<open>Number::toString\<close> of a positive finite number \<open>x = num / den\<close>.  It takes the
  least number \<open>k\<close> of digits for which some decimal \<open>s * 10^(n - k)\<close> with
  \<open>10^(k - 1) \<le> s < 10^k\<close> has the Number value \<open>x\<close>, and among these decimals the one
  closest to \<open>x\<close> (the even \<open>s\<close> in a tie).  \<open>dec_exponent\<close> is the \<open>n\<close> with
  \<open>10^(n - 1) \<le> x < 10^n\<close>.  With \<open>k\<close> digits the decimals next to \<open>x\<close> are
  \<open>lo * 10^c\<close> and \<open>(lo + 1) * 10^c\<close> for \<open>c = n - k\<close> and \<open>lo\<close> the integer part of
  \<open>x / 10^c\<close>; \<open>candidate\<close> gives the one that has the Number value \<open>x\<close>, the closer
  one when both have.  \<open>shortest\<close> tries \<open>k = 1, 2, ...\<close>; seventeen digits identify
  every binary64 value, so the search ends there with the decimal closest to \<open>x\<close>.
  \<open>lo + 1\<close> may be \<open>10^k\<close>, hence \<open>strip_zeros\<close>.
\<close>

function lead :: "nat \<Rightarrow> nat \<Rightarrow> nat \<Rightarrow> nat" where
  "lead num den j = (if num = 0 \<or> den \<le> num * 10 ^ j then j else lead num den (Suc j))"
  by pat_completeness auto

termination
proof (relation "measure (\<lambda>(num, den, j). den - num * 10 ^ j)", goal_cases)
  case 1
  show ?case by simp
next
  case (2 num den j)
  define a where "a = num * 10 ^ j"
  from 2 have "0 < a" and "a < den" by (simp_all add: a_def)
  then have "den - 10 * a < den - a" by simp
  then show ?case by (simp add: a_def mult.assoc mult.left_commute)
qed

declare lead.simps [simp del]

definition dec_exponent :: "nat \<Rightarrow> nat \<Rightarrow> int" where
  "dec_exponent num den =
     (if den \<le> num then int (length (digits_of (num div den)))
      else 1 - int (lead num den 1))"

definition candidate :: "double \<Rightarrow> nat \<Rightarrow> nat \<Rightarrow> int \<Rightarrow> nat option" where
  "candidate x num den c =
     (let num' = (if 0 \<le> c then num else num * 10 ^ nat (- c));
          den' = (if 0 \<le> c then den * 10 ^ nat c else den);
          lo = num' div den';
          r = num' mod den';
          ok_lo = (of_decimal False lo c = x);
          ok_hi = (of_decimal False (lo + 1) c = x)
      in if ok_lo \<and> ok_hi
         then Some (if 2 * r < den' then lo else if den' < 2 * r then lo + 1
                    else if even lo then lo else lo + 1)
         else if ok_lo then Some lo
         else if ok_hi then Some (lo + 1)
         else None)"

fun shortest :: "double \<Rightarrow> nat \<Rightarrow> nat \<Rightarrow> int \<Rightarrow> nat \<Rightarrow> nat \<Rightarrow> nat \<times> int" where
  "shortest x num den n k 0 =
     (let c = n - int k;
          num' = (if 0 \<le> c then num else num * 10 ^ nat (- c));
          den' = (if 0 \<le> c then den * 10 ^ nat c else den)
      in (round_half_even num' den', c))"
| "shortest x num den n k (Suc fuel) =
     (case candidate x num den (n - int k) of
        Some s \<Rightarrow> (s, n - int k)
      | None \<Rightarrow> shortest x num den n (Suc k) fuel)"

fun strip_zeros :: "nat \<Rightarrow> int \<Rightarrow> nat \<times> int" where
  "strip_zeros s c = (if s \<noteq> 0 \<and> s mod 10 = 0 then strip_zeros (s div 10) (c + 1) else (s, c))"

declare strip_zeros.simps [simp del]

text \<open>
  The digits \<open>ds\<close> of \<open>s\<close> and the exponent \<open>n\<close> as \<^verbatim>\<open>Number::toString\<close> lays them
  out: an integer, a decimal point inside the digits, \<^verbatim>\<open>0.\<close> and up to five zeros before
  the digits, or exponent notation.
\<close>

definition format_number :: "jsstring \<Rightarrow> int \<Rightarrow> jsstring" where
  "format_number ds n =
     (let k = int (length ds)
      in if k \<le> n \<and> n \<le> 21 then ds @ replicate (nat (n - k)) 0x30
         else if 0 < n \<and> n \<le> 21 then take (nat n) ds @ [0x2E] @ drop (nat n) ds
         else if - 6 < n \<and> n \<le> 0 then [0x30, 0x2E] @ replicate (nat (- n)) 0x30 @ ds
         else
           (if k = 1 then ds else [hd ds, 0x2E] @ tl ds)
           @ [0x65, if 0 \<le> n - 1 then 0x2B else 0x2D] @ digits_of (nat \<bar>n - 1\<bar>))"

text \<open>
  A number as \<^verbatim>\<open>JSON.stringify\<close> writes it: \<^verbatim>\<open>null\<close> for an infinity, \<^verbatim>\<open>0\<close> for
  both zeros, and \<^verbatim>\<open>Number::toString\<close> otherwise.
\<close>

definition number_text :: "double \<Rightarrow> jsstring" where
  "number_text x =
     (case x of
        Infinite neg \<Rightarrow> js ''null''
      | Finite neg m e \<Rightarrow>
          if m = 0 then js ''0''
          else
            let num = (if 0 \<le> e then m * 2 ^ nat e else m);
                den = (if 0 \<le> e then 1 else 2 ^ nat (- e));
                sc = shortest (Finite False m e) num den (dec_exponent num den) 1 16;
                sc' = strip_zeros (fst sc) (snd sc);
                ds = digits_of (fst sc')
            in (if neg then [0x2D] else []) @ format_number ds (int (length ds) + snd sc'))"

definition indent_str :: "nat \<Rightarrow> jsstring" where
  "indent_str n = replicate (2 * n) 0x20"

text \<open>
  \<open>stringify_at n v\<close> is \<^verbatim>\<open>SerializeJSONProperty\<close> for a value at nesting depth
  \<open>n\<close> with the gap of two spaces.
\<close>

fun stringify_at :: "nat \<Rightarrow> json \<Rightarrow> jsstring"
  and stringify_elems :: "nat \<Rightarrow> json list \<Rightarrow> jsstring"
  and stringify_members :: "nat \<Rightarrow> (jsstring \<times> json) list \<Rightarrow> jsstring"
where
  "stringify_at n JNull = js ''null''"
| "stringify_at n (JBool b) = (if b then js ''true'' else js ''false'')"
| "stringify_at n (JNum x) = number_text x"
| "stringify_at n (JStr s) = QuoteJSONString s"
| "stringify_at n (JArr xs) =
     (if xs = [] then js ''[]''
      else [0x5B, 0x0A] @ indent_str (Suc n) @ stringify_elems (Suc n) xs
           @ [0x0A] @ indent_str n @ [0x5D])"
| "stringify_at n (JObj ps) =
     (if ps = [] then js ''{}''
      else [0x7B, 0x0A] @ indent_str (Suc n) @ stringify_members (Suc n) ps
           @ [0x0A] @ indent_str n @ [0x7D])"
| "stringify_elems n [] = []"
| "stringify_elems n (x # xs) =
     stringify_at n x
     @ (if xs = [] then [] else [0x2C, 0x0A] @ indent_str n @ stringify_elems n xs)"
| "stringify_members n [] = []"
| "stringify_members n (kv # ps) =
     QuoteJSONString (fst kv) @ [0x3A, 0x20] @ stringify_at n (snd kv)
     @ (if ps = [] then [] else [0x2C, 0x0A] @ indent_str n @ stringify_members n ps)"

definition JSON_stringify :: "json \<Rightarrow> jsstring" where
  "JSON_stringify v = stringify_at 0 v"


section \<open>\<^verbatim>\<open>JSON.parse\<close>\<close>

definition is_json_ws :: "jschar \<Rightarrow> bool" where
  "is_json_ws c \<longleftrightarrow> c = 0x20 \<or> c = 0x09 \<or> c = 0x0A \<or> c = 0x0D"

definition skip_ws :: "jsstring \<Rightarrow> jsstring" where
  "skip_ws s = dropWhile is_json_ws s"

definition is_digit :: "jschar \<Rightarrow> bool" where
  "is_digit c \<longleftrightarrow> 0x30 \<le> c \<and> c \<le> 0x39"

definition digit_val :: "jschar \<Rightarrow> nat" where
  "digit_val c = unat c - 48"

definition digits_val :: "jsstring \<Rightarrow> nat" where
  "digits_val ds = foldl (\<lambda>a c. 10 * a + digit_val c) 0 ds"

definition hex_val :: "jschar \<Rightarrow> nat option" where
  "hex_val c =
     (if 0x30 \<le> c \<and> c \<le> 0x39 then Some (unat c - 48)
      else if 0x61 \<le> c \<and> c \<le> 0x66 then Some (unat c - 87)
      else if 0x41 \<le> c \<and> c \<le> 0x46 then Some (unat c - 55)
      else None)"

text \<open>The code unit of the four hexadecimal digits after \<^verbatim>\<open>\u\<close>.\<close>

definition hex4 :: "jsstring \<Rightarrow> jschar option" where
  "hex4 ds =
     (case map hex_val ds of
        [Some a, Some b, Some c, Some d] \<Rightarrow> Some (of_nat (((a * 16 + b) * 16 + c) * 16 + d))
      | _ \<Rightarrow> None)"

definition unescape :: "jschar \<Rightarrow> jschar option" where
  "unescape e =
     (if e = 0x22 then Some 0x22
      else if e = 0x5C then Some 0x5C
      else if e = 0x2F then Some 0x2F
      else if e = 0x62 then Some 0x08
      else if e = 0x66 then Some 0x0C
      else if e = 0x6E then Some 0x0A
      else if e = 0x72 then Some 0x0D
      else if e = 0x74 then Some 0x09
      else None)"

text \<open>
  The characters of a JSON string after its opening quote, up to and including the
  closing quote; the result is the string value and the rest of the input.
\<close>

fun parse_chars :: "jsstring \<Rightarrow> (jsstring \<times> jsstring) option" where
  "parse_chars [] = None"
| "parse_chars (c # cs) =
     (if c = 0x22 then Some ([], cs)
      else if c = 0x5C then
        (case cs of
           [] \<Rightarrow> None
         | e # cs' \<Rightarrow>
             if e = 0x75 then
               (case hex4 (take 4 cs') of
                  None \<Rightarrow> None
                | Some u \<Rightarrow> map_option (\<lambda>(str, r). (u # str, r)) (parse_chars (drop 4 cs')))
             else
               (case unescape e of
                  None \<Rightarrow> None
                | Some u \<Rightarrow> map_option (\<lambda>(str, r). (u # str, r)) (parse_chars cs')))
      else if c < 0x20 then None
      else map_option (\<lambda>(str, r). (c # str, r)) (parse_chars cs))"

text \<open>
  A JSON number: \<^verbatim>\<open>-? (0 | [1-9][0-9]*) (. [0-9]+)? ([eE] [+-]? [0-9]+)?\<close>,
  read as the Number value of the decimal it denotes.  \<open>parse_fraction\<close> reads the optional fraction and
  returns its digits, \<open>parse_exponent\<close> reads the optional exponent and returns its
  value; both return the rest of the input, or \<open>None\<close> when digits are missing.
\<close>

definition parse_fraction :: "jsstring \<Rightarrow> (jsstring \<times> jsstring) option" where
  "parse_fraction s =
     (case s of
        [] \<Rightarrow> Some ([], s)
      | c # cs \<Rightarrow>
          if c = 0x2E then
            (if takeWhile is_digit cs = [] then None
             else Some (takeWhile is_digit cs, dropWhile is_digit cs))
          else Some ([], s))"

definition parse_exponent :: "jsstring \<Rightarrow> (int \<times> jsstring) option" where
  "parse_exponent s =
     (case s of
        [] \<Rightarrow> Some (0, s)
      | c # cs \<Rightarrow>
          if c = 0x65 \<or> c = 0x45 then
            (let neg = (cs \<noteq> [] \<and> hd cs = 0x2D);
                 ds = (if cs \<noteq> [] \<and> (hd cs = 0x2D \<or> hd cs = 0x2B) then tl cs else cs)
             in if takeWhile is_digit ds = [] then None
                else Some (if neg then - int (digits_val (takeWhile is_digit ds))
                           else int (digits_val (takeWhile is_digit ds)),
                           dropWhile is_digit ds))
          else Some (0, s))"

text \<open>
  The number with sign \<open>neg\<close>, integer digits \<open>ip\<close>, fraction digits \<open>fp\<close> and
  exponent \<open>e\<close>.
\<close>

definition decimal :: "bool \<Rightarrow> jsstring \<Rightarrow> jsstring \<Rightarrow> int \<Rightarrow> json" where
  "decimal neg ip fp e = JNum (of_decimal neg (digits_val (ip @ fp)) (e - int (length fp)))"

definition parse_number :: "jsstring \<Rightarrow> (json \<times> jsstring) option" where
  "parse_number s =
     (let neg = (s \<noteq> [] \<and> hd s = 0x2D);
          s1 = (if neg then tl s else s);
          ip = takeWhile is_digit s1
      in if ip = [] \<or> (hd ip = 0x30 \<and> 1 < length ip) then None
         else
           (case parse_fraction (dropWhile is_digit s1) of
              None \<Rightarrow> None
            | Some (fp, s3) \<Rightarrow>
                (case parse_exponent s3 of
                   None \<Rightarrow> None
                 | Some (e, s4) \<Rightarrow> Some (decimal neg ip fp e, s4))))"

definition starts_with :: "jsstring \<Rightarrow> jsstring \<Rightarrow> bool" where
  "starts_with p s \<longleftrightarrow> take (length p) s = p"

text \<open>
  Own property order of an ordinary object: array-index keys (canonical decimal
  numerals below \<open>2^32 - 1\<close>) in ascending order first, then the other keys in
  creation order.  \<open>obj_put\<close> is \<^verbatim>\<open>CreateDataProperty\<close>: an existing key keeps
  its place and takes the new value.
\<close>

definition is_array_index :: "jsstring \<Rightarrow> bool" where
  "is_array_index k \<longleftrightarrow>
     k \<noteq> [] \<and> list_all is_digit k \<and> (k = [0x30] \<or> hd k \<noteq> 0x30) \<and> digits_val k < 2 ^ 32 - 1"

fun insert_index :: "jsstring \<Rightarrow> json \<Rightarrow> (jsstring \<times> json) list \<Rightarrow> (jsstring \<times> json) list" where
  "insert_index k v [] = [(k, v)]"
| "insert_index k v (p # ps) =
     (if is_array_index (fst p) \<and> digits_val (fst p) < digits_val k
      then p # insert_index k v ps
      else (k, v) # p # ps)"

definition obj_put :: "(jsstring \<times> json) list \<Rightarrow> jsstring \<Rightarrow> json \<Rightarrow> (jsstring \<times> json) list" where
  "obj_put ps k v =
     (if k \<in> fst ` set ps then map (\<lambda>p. if fst p = k then (k, v) else p) ps
      else if is_array_index k then insert_index k v ps
      else ps @ [(k, v)])"

definition make_object :: "(jsstring \<times> json) list \<Rightarrow> (jsstring \<times> json) list" where
  "make_object ms = foldl (\<lambda>ps kv. obj_put ps (fst kv) (snd kv)) [] ms"

text \<open>Skipping white space never lengthens the input.\<close>

lemma length_skip_ws: "length (skip_ws s) \<le> length s"
  by (simp add: skip_ws_def length_dropWhile_le)

lemma skip_ws_Cons_length: "skip_ws s = c # cs \<Longrightarrow> length cs < length s"
  using length_skip_ws [of s] by simp

text \<open>
  The JSON grammar by recursive descent.  Each function returns the value read and
  the rest of the input, or \<open>None\<close> for a syntax error.  \<open>parse_elements\<close> reads
  the elements of a non-empty array up to and including \<^verbatim>\<open>]\<close>, \<open>parse_members\<close>
  the members of a non-empty object up to and including \<^verbatim>\<open>}\<close>.  The comparisons
  of lengths before the recursive calls on a rest always succeed (the rest of a value is
  shorter than the input it was read from); they make the recursion well founded.
\<close>

function parse_value :: "jsstring \<Rightarrow> (json \<times> jsstring) option"
  and parse_elements :: "jsstring \<Rightarrow> (json list \<times> jsstring) option"
  and parse_members :: "jsstring \<Rightarrow> ((jsstring \<times> json) list \<times> jsstring) option"
where
  "parse_value s =
     (case skip_ws s of
        [] \<Rightarrow> None
      | c # cs \<Rightarrow>
          if c = 0x5B then
            (case skip_ws cs of
               [] \<Rightarrow> None
             | d # ds \<Rightarrow>
                 if d = 0x5D then Some (JArr [], ds)
                 else map_option (\<lambda>(vs, r). (JArr vs, r)) (parse_elements (d # ds)))
          else if c = 0x7B then
            (case skip_ws cs of
               [] \<Rightarrow> None
             | d # ds \<Rightarrow>
                 if d = 0x7D then Some (JObj [], ds)
                 else map_option (\<lambda>(ms, r). (JObj (make_object ms), r)) (parse_members (d # ds)))
          else if c = 0x22 then map_option (\<lambda>(str, r). (JStr str, r)) (parse_chars cs)
          else if starts_with (js ''true'') (c # cs) then Some (JBool True, drop 4 (c # cs))
          else if starts_with (js ''false'') (c # cs) then Some (JBool False, drop 5 (c # cs))
          else if starts_with (js ''null'') (c # cs) then Some (JNull, drop 4 (c # cs))
          else parse_number (c # cs))"
| "parse_elements s =
     (case parse_value s of
        None \<Rightarrow> None
      | Some (v, r) \<Rightarrow>
          (case skip_ws r of
             [] \<Rightarrow> None
           | c # cs \<Rightarrow>
               if c = 0x5D then Some ([v], cs)
               else if c = 0x2C \<and> length cs < length s
               then map_option (\<lambda>(vs, r'). (v # vs, r')) (parse_elements cs)
               else None))"
| "parse_members s =
     (case skip_ws s of
        [] \<Rightarrow> None
      | q # s1 \<Rightarrow>
          if q \<noteq> 0x22 then None
          else
            (case parse_chars s1 of
               None \<Rightarrow> None
             | Some (k, s2) \<Rightarrow>
                 (case skip_ws s2 of
                    [] \<Rightarrow> None
                  | col # s3 \<Rightarrow>
                      if col \<noteq> 0x3A \<or> length s \<le> length s3 then None
                      else
                        (case parse_value s3 of
                           None \<Rightarrow> None
                         | Some (v, s4) \<Rightarrow>
                             (case skip_ws s4 of
                                [] \<Rightarrow> None
                              | e # s5 \<Rightarrow>
                                  if e = 0x7D then Some ([(k, v)], s5)
                                  else if e = 0x2C \<and> length s5 < length s
                                  then map_option (\<lambda>(ms, r). ((k, v) # ms, r)) (parse_members s5)
                                  else None)))))"
  by pat_completeness auto

termination
proof (relation "measure (\<lambda>x. case x of
          Inl s \<Rightarrow> 2 * length s
        | Inr (Inl s) \<Rightarrow> 2 * length s + 1
        | Inr (Inr s) \<Rightarrow> 2 * length s + 1)", goal_cases)
  case 1
  show ?case by simp
next
  case (2 s c cs d ds)
  from skip_ws_Cons_length [OF 2(1)] skip_ws_Cons_length [OF 2(3)]
  show ?case by simp
next
  case (3 s c cs d ds)
  from skip_ws_Cons_length [OF 3(1)] skip_ws_Cons_length [OF 3(4)]
  show ?case by simp
next
  case 4
  show ?case by simp
next
  case 5
  then show ?case by simp
next
  case 6
  then show ?case by simp
next
  case 7
  then show ?case by simp
qed

declare parse_value.simps [simp del] parse_elements.simps [simp del] parse_members.simps [simp del]

text \<open>\<^verbatim>\<open>JSON.parse(text)\<close>: one value, surrounded by white space only.\<close>

definition JSON_parse :: "jsstring \<Rightarrow> error + json" where
  "JSON_parse s =
     (case parse_value s of
        None \<Rightarrow> Inl SyntaxError
      | Some (v, r) \<Rightarrow> if skip_ws r = [] then Inr v else Inl SyntaxError)"


section \<open>The data file\<close>

text \<open>
  \<^verbatim>\<open>fs.writeFile\<close> encodes the string as UTF-8 and \<^verbatim>\<open>fs.readFile(.., 'utf8')\<close>
  decodes it: a surrogate pair comes back unchanged, a lone surrogate comes back as
  U+FFFD.
\<close>

fun utf8_roundtrip :: "jsstring \<Rightarrow> jsstring" where
  "utf8_roundtrip [] = []"
| "utf8_roundtrip (c # cs) =
     (if is_high_surrogate c then
        (case cs of
           [] \<Rightarrow> [0xFFFD]
         | d # ds \<Rightarrow>
             if is_low_surrogate d then c # d # utf8_roundtrip ds
             else 0xFFFD # utf8_roundtrip cs)
      else if is_low_surrogate c then 0xFFFD # utf8_roundtrip cs
      else c # utf8_roundtrip cs)"

text \<open>
  The state of \<^verbatim>\<open>data/contacts.json\<close> as \<^verbatim>\<open>readContacts\<close> meets it:
  \<open>MkdirFails\<close> when \<^verbatim>\<open>fs.mkdir\<close> of the data directory rejects, \<open>ReadFails\<close> when
  \<^verbatim>\<open>fs.readFile\<close> rejects (the file is missing, or any other error), \<open>Content d\<close>
  when the file reads as the string \<open>d\<close>.
\<close>

datatype artifact = MkdirFails | ReadFails | Content jsstring

text \<open>\<^verbatim>\<open>await fs.readFile(CONTACTS_FILE, 'utf8').catch(() => '[]')\<close>.\<close>

definition read_data :: "artifact \<Rightarrow> jsstring" where
  "read_data a = (case a of Content d \<Rightarrow> d | _ \<Rightarrow> js ''[]'')"

text \<open>The body of the \<^verbatim>\<open>try\<close> block of \<^verbatim>\<open>readContacts\<close>; \<open>Inl\<close> is a throw.\<close>

definition readContacts_try :: "artifact \<Rightarrow> error + json" where
  "readContacts_try a =
     (if a = MkdirFails then Inl IOError
      else (case JSON_parse (read_data a) of
              Inl e \<Rightarrow> Inl e
            | Inr v \<Rightarrow> Inr (if truthy v then v else JArr [])))"

definition readContacts :: "artifact \<Rightarrow> json" where
  "readContacts a = (case readContacts_try a of Inl e \<Rightarrow> JArr [] | Inr v \<Rightarrow> v)"

text \<open>
  What \<^verbatim>\<open>fs.writeFile\<close> does is decided by the environment.  It opens the file
  with flag \<^verbatim>\<open>w\<close>, which truncates it, and then writes: a rejection leaves the file
  as it was (rejected on opening) or empty (rejected after the truncation).  A file
  written in part is not modelled.
\<close>

datatype write_outcome = Written | FailedUntouched | FailedEmptied

definition writeContacts :: "write_outcome \<Rightarrow> json \<Rightarrow> artifact \<Rightarrow> artifact \<times> bool" where
  "writeContacts w contacts a =
     (case w of
        Written \<Rightarrow> (Content (utf8_roundtrip (JSON_stringify contacts)), True)
      | FailedUntouched \<Rightarrow> (a, False)
      | FailedEmptied \<Rightarrow> (Content [], False))"


section \<open>Responses\<close>

record response =
  status :: nat
  body :: json

definition msg_get_ok :: jsstring where
  "msg_get_ok = [0x83B7, 0x53D6, 0x6210, 0x529F]"

definition msg_get_failed :: jsstring where
  "msg_get_failed = [0x83B7, 0x53D6, 0x5931, 0x8D25]"

definition msg_not_found :: jsstring where
  "msg_not_found = [0x8054, 0x7CFB, 0x4EBA, 0x4E0D, 0x5B58, 0x5728]"

definition msg_name_phone_empty :: jsstring where
  "msg_name_phone_empty =
     [0x59D3, 0x540D, 0x548C, 0x624B, 0x673A, 0x53F7, 0x4E0D, 0x80FD, 0x4E3A, 0x7A7A]"

definition msg_add_ok :: jsstring where
  "msg_add_ok = [0x6DFB, 0x52A0, 0x6210, 0x529F]"

definition msg_add_failed :: jsstring where
  "msg_add_failed = [0x6DFB, 0x52A0, 0x5931, 0x8D25]"

definition msg_id_name_phone_empty :: jsstring where
  "msg_id_name_phone_empty =
     [0x49, 0x44, 0x3001, 0x59D3, 0x540D, 0x548C, 0x624B, 0x673A, 0x53F7, 0x4E0D, 0x80FD,
      0x4E3A, 0x7A7A]"

definition msg_update_ok :: jsstring where
  "msg_update_ok = [0x4FEE, 0x6539, 0x6210, 0x529F]"

definition msg_update_failed :: jsstring where
  "msg_update_failed = [0x4FEE, 0x6539, 0x5931, 0x8D25]"

definition msg_id_empty :: jsstring where
  "msg_id_empty = [0x49, 0x44, 0x4E0D, 0x80FD, 0x4E3A, 0x7A7A]"

definition msg_delete_ok :: jsstring where
  "msg_delete_ok = [0x5220, 0x9664, 0x6210, 0x529F]"

definition msg_delete_failed :: jsstring where
  "msg_delete_failed = [0x5220, 0x9664, 0x5931, 0x8D25]"

text \<open>\<^verbatim>\<open>res.status(n).json({ success, message })\<close> and the same with \<^verbatim>\<open>data\<close>.\<close>

definition reply :: "nat \<Rightarrow> bool \<Rightarrow> jsstring \<Rightarrow> response" where
  "reply n ok msg =
     \<lparr>status = n, body = JObj [(js ''success'', JBool ok), (js ''message'', JStr msg)]\<rparr>"

definition reply_data :: "nat \<Rightarrow> bool \<Rightarrow> jsstring \<Rightarrow> json \<Rightarrow> response" where
  "reply_data n ok msg d =
     \<lparr>status = n,
      body = JObj [(js ''success'', JBool ok), (js ''message'', JStr msg), (js ''data'', d)]\<rparr>"


section \<open>The handlers\<close>

text \<open>
  \<^verbatim>\<open>contacts.find(c => c.id === id)\<close>, \<^verbatim>\<open>contacts.findIndex(c => c.id === id)\<close> and
  \<^verbatim>\<open>contacts.filter(c => c.id !== id)\<close> on the elements of an array: the callback
  throws on a \<^verbatim>\<open>null\<close> element, and \<^verbatim>\<open>===\<close> with the string \<open>id\<close> holds for
  that very string only.  \<^verbatim>\<open>find\<close> and \<^verbatim>\<open>findIndex\<close> stop at the first match.
\<close>

fun find_by_id :: "json list \<Rightarrow> jsstring \<Rightarrow> error + json option" where
  "find_by_id [] i = Inr None"
| "find_by_id (c # cs) i =
     (case get_prop c (js ''id'') of
        Inl e \<Rightarrow> Inl e
      | Inr v \<Rightarrow> if v = Some (JStr i) then Inr (Some c) else find_by_id cs i)"

fun findIndex_by_id :: "json list \<Rightarrow> jsstring \<Rightarrow> error + nat option" where
  "findIndex_by_id [] i = Inr None"
| "findIndex_by_id (c # cs) i =
     (case get_prop c (js ''id'') of
        Inl e \<Rightarrow> Inl e
      | Inr v \<Rightarrow>
          if v = Some (JStr i) then Inr (Some 0)
          else (case findIndex_by_id cs i of
                  Inl e \<Rightarrow> Inl e
                | Inr None \<Rightarrow> Inr None
                | Inr (Some n) \<Rightarrow> Inr (Some (Suc n))))"

fun filter_not_id :: "json list \<Rightarrow> jsstring \<Rightarrow> error + json list" where
  "filter_not_id [] i = Inr []"
| "filter_not_id (c # cs) i =
     (case get_prop c (js ''id'') of
        Inl e \<Rightarrow> Inl e
      | Inr v \<Rightarrow>
          (case filter_not_id cs i of
             Inl e \<Rightarrow> Inl e
           | Inr ys \<Rightarrow> Inr (if v \<noteq> Some (JStr i) then c # ys else ys)))"

text \<open>
  \<^verbatim>\<open>const { name, phone } = req.body\<close>: the body is \<open>None\<close> when it is
  \<^verbatim>\<open>undefined\<close>; destructuring \<^verbatim>\<open>undefined\<close> or \<^verbatim>\<open>null\<close> throws.
\<close>

definition body_field :: "json option \<Rightarrow> jsstring \<Rightarrow> error + json option" where
  "body_field b k = (case b of None \<Rightarrow> Inl TypeError | Some v \<Rightarrow> get_prop v k)"

text \<open>
  \<^verbatim>\<open>x.trim()\<close> on a value read from the body: only a string has a callable
  \<^verbatim>\<open>trim\<close>; on every other value, and on \<^verbatim>\<open>undefined\<close>, the call throws.
\<close>

definition call_trim :: "json option \<Rightarrow> error + jsstring" where
  "call_trim x = (case x of Some (JStr s) \<Rightarrow> Inr (trim s) | _ \<Rightarrow> Inl TypeError)"

text \<open>\<^verbatim>\<open>app.get('/api/contacts')\<close>.  Nothing in its \<^verbatim>\<open>try\<close> block throws.\<close>

definition get_contacts :: "artifact \<Rightarrow> response" where
  "get_contacts a =
     (let contacts = readContacts a
      in reply_data 200 True msg_get_ok (JObj [(js ''contacts'', contacts)]))"

text \<open>\<^verbatim>\<open>app.get('/api/contacts/:id')\<close>; \<open>i\<close> is \<^verbatim>\<open>req.params.id\<close>.\<close>

definition get_contact_try :: "jsstring \<Rightarrow> artifact \<Rightarrow> error + response" where
  "get_contact_try i a =
     (case readContacts a of
        JArr xs \<Rightarrow>
          (case find_by_id xs i of
             Inl e \<Rightarrow> Inl e
           | Inr None \<Rightarrow> Inr (reply 404 False msg_not_found)
           | Inr (Some contact) \<Rightarrow>
               Inr (if truthy contact
                    then reply_data 200 True msg_get_ok (JObj [(js ''contact'', contact)])
                    else reply 404 False msg_not_found))
      | _ \<Rightarrow> Inl TypeError)"

definition get_contact :: "jsstring \<Rightarrow> artifact \<Rightarrow> response" where
  "get_contact i a =
     (case get_contact_try i a of
        Inl e \<Rightarrow> reply 500 False msg_get_failed
      | Inr r \<Rightarrow> r)"

text \<open>
  \<^verbatim>\<open>app.post('/api/contacts')\<close>; \<open>w\<close> is what the write will do, \<open>now\<close> is
  \<^verbatim>\<open>Date.now()\<close>, \<open>b\<close> is \<^verbatim>\<open>req.body\<close>.  In \<^verbatim>\<open>!name.trim() || !phone.trim()\<close>
  the second call is made only when the first string is not empty.
\<close>

definition post_contact_try ::
  "write_outcome \<Rightarrow> int \<Rightarrow> json option \<Rightarrow> artifact \<Rightarrow> error + response \<times> artifact" where
  "post_contact_try w now b a =
     (case body_field b (js ''name'') of
        Inl e \<Rightarrow> Inl e
      | Inr name \<Rightarrow>
     (case body_field b (js ''phone'') of
        Inl e \<Rightarrow> Inl e
      | Inr phone \<Rightarrow>
     (case call_trim name of
        Inl e \<Rightarrow> Inl e
      | Inr n \<Rightarrow>
          if n = [] then Inr (reply 400 False msg_name_phone_empty, a)
          else
     (case call_trim phone of
        Inl e \<Rightarrow> Inl e
      | Inr p \<Rightarrow>
          if p = [] then Inr (reply 400 False msg_name_phone_empty, a)
          else
            (case readContacts a of
               JArr xs \<Rightarrow>
                 let newContact = JObj [(js ''id'', JStr (int_toString now)),
                                        (js ''name'', JStr n), (js ''phone'', JStr p)];
                     wr = writeContacts w (JArr (xs @ [newContact])) a
                 in Inr (if snd wr
                         then reply_data 201 True msg_add_ok (JObj [(js ''contact'', newContact)])
                         else reply 500 False msg_add_failed,
                         fst wr)
             | _ \<Rightarrow> Inl TypeError)))))"

definition post_contact ::
  "write_outcome \<Rightarrow> int \<Rightarrow> json option \<Rightarrow> artifact \<Rightarrow> response \<times> artifact" where
  "post_contact w now b a =
     (case post_contact_try w now b a of
        Inl e \<Rightarrow> (reply 500 False msg_add_failed, a)
      | Inr r \<Rightarrow> r)"

text \<open>
  \<^verbatim>\<open>app.put('/api/contacts/:id')\<close>.  The body is destructured before the check
  \<^verbatim>\<open>!id || !name.trim() || !phone.trim()\<close>, which stops at its first true operand.
  \<^verbatim>\<open>findIndex\<close> returns an index inside the array, so the assignment
  \<^verbatim>\<open>contacts[index] = ...\<close> replaces an element.
\<close>

definition put_contact_try ::
  "write_outcome \<Rightarrow> jsstring \<Rightarrow> json option \<Rightarrow> artifact \<Rightarrow> error + response \<times> artifact" where
  "put_contact_try w i b a =
     (case body_field b (js ''name'') of
        Inl e \<Rightarrow> Inl e
      | Inr name \<Rightarrow>
     (case body_field b (js ''phone'') of
        Inl e \<Rightarrow> Inl e
      | Inr phone \<Rightarrow>
          if i = [] then Inr (reply 400 False msg_id_name_phone_empty, a)
          else
     (case call_trim name of
        Inl e \<Rightarrow> Inl e
      | Inr n \<Rightarrow>
          if n = [] then Inr (reply 400 False msg_id_name_phone_empty, a)
          else
     (case call_trim phone of
        Inl e \<Rightarrow> Inl e
      | Inr p \<Rightarrow>
          if p = [] then Inr (reply 400 False msg_id_name_phone_empty, a)
          else
            (case readContacts a of
               JArr xs \<Rightarrow>
                 (case findIndex_by_id xs i of
                    Inl e \<Rightarrow> Inl e
                  | Inr None \<Rightarrow> Inr (reply 404 False msg_not_found, a)
                  | Inr (Some index) \<Rightarrow>
                      let updated = JObj [(js ''id'', JStr i),
                                          (js ''name'', JStr n), (js ''phone'', JStr p)];
                          wr = writeContacts w (JArr (xs[index := updated])) a
                      in Inr (if snd wr
                              then reply_data 200 True msg_update_ok
                                     (JObj [(js ''contact'', updated)])
                              else reply 500 False msg_update_failed,
                              fst wr))
             | _ \<Rightarrow> Inl TypeError)))))"

definition put_contact ::
  "write_outcome \<Rightarrow> jsstring \<Rightarrow> json option \<Rightarrow> artifact \<Rightarrow> response \<times> artifact" where
  "put_contact w i b a =
     (case put_contact_try w i b a of
        Inl e \<Rightarrow> (reply 500 False msg_update_failed, a)
      | Inr r \<Rightarrow> r)"

text \<open>\<^verbatim>\<open>app.delete('/api/contacts/:id')\<close>.\<close>

definition delete_contact_try ::
  "write_outcome \<Rightarrow> jsstring \<Rightarrow> artifact \<Rightarrow> error + response \<times> artifact" where
  "delete_contact_try w i a =
     (if i = [] then Inr (reply 400 False msg_id_empty, a)
      else
        (case readContacts a of
           JArr xs \<Rightarrow>
             (case filter_not_id xs i of
                Inl e \<Rightarrow> Inl e
              | Inr newContacts \<Rightarrow>
                  if length newContacts = length xs
                  then Inr (reply 404 False msg_not_found, a)
                  else
                    let wr = writeContacts w (JArr newContacts) a
                    in Inr (if snd wr then reply 200 True msg_delete_ok
                            else reply 500 False msg_delete_failed,
                            fst wr))
         | _ \<Rightarrow> Inl TypeError))"

definition delete_contact ::
  "write_outcome \<Rightarrow> jsstring \<Rightarrow> artifact \<Rightarrow> response \<times> artifact" where
  "delete_contact w i a =
     (case delete_contact_try w i a of
        Inl e \<Rightarrow> (reply 500 False msg_delete_failed, a)
      | Inr r \<Rightarrow> r)"


section \<open>Sequences of requests\<close>

datatype request =
    GetContacts
  | GetContact jsstring
  | PostContact "json option"
  | PutContact jsstring "json option"
  | DeleteContact jsstring

text \<open>What the environment gives one request: the clock and the fate of its write.\<close>

record env =
  clock :: int
  write_result :: write_outcome

fun handle :: "env \<Rightarrow> request \<Rightarrow> artifact \<Rightarrow> response \<times> artifact" where
  "handle e GetContacts a = (get_contacts a, a)"
| "handle e (GetContact i) a = (get_contact i a, a)"
| "handle e (PostContact b) a = post_contact (write_result e) (clock e) b a"
| "handle e (PutContact i b) a = put_contact (write_result e) i b a"
| "handle e (DeleteContact i) a = delete_contact (write_result e) i a"

text \<open>Requests served one after the other: the responses and the final file.\<close>

fun run :: "artifact \<Rightarrow> (env \<times> request) list \<Rightarrow> response list \<times> artifact" where
  "run a [] = ([], a)"
| "run a (er # rest) =
     (let ra = handle (fst er) (snd er) a;
          rs = run (snd ra) rest
      in (fst ra # fst rs, snd rs))"


section \<open>Contact records and the response envelope\<close>

text \<open>
  A contact record has the string fields \<^verbatim>\<open>id\<close>, \<^verbatim>\<open>name\<close> and \<^verbatim>\<open>phone\<close>; as a
  JavaScript object it is what the handlers build, \<^verbatim>\<open>{ id, name, phone }\<close>.  A
  collection is a list of records, persisted as a JSON array.
\<close>

record contact =
  contact_id :: jsstring
  contact_name :: jsstring
  contact_phone :: jsstring

definition contact_json :: "contact \<Rightarrow> json" where
  "contact_json c =
     JObj [(js ''id'', JStr (contact_id c)), (js ''name'', JStr (contact_name c)),
           (js ''phone'', JStr (contact_phone c))]"

definition contacts_json :: "contact list \<Rightarrow> json" where
  "contacts_json cs = JArr (map contact_json cs)"

text \<open>
  The persisted layout that the specification describes: a JSON array of objects,
  each with string fields \<^verbatim>\<open>id\<close>, \<^verbatim>\<open>name\<close> and \<^verbatim>\<open>phone\<close>.
\<close>

definition is_contact_record :: "json \<Rightarrow> bool" where
  "is_contact_record v =
     (case v of
        JObj ps \<Rightarrow>
          (case (map_of ps (js ''id''), map_of ps (js ''name''), map_of ps (js ''phone'')) of
             (Some (JStr i), Some (JStr n), Some (JStr p)) \<Rightarrow> True
           | _ \<Rightarrow> False)
      | _ \<Rightarrow> False)"

definition is_contact_collection :: "json \<Rightarrow> bool" where
  "is_contact_collection v = (case v of JArr xs \<Rightarrow> list_all is_contact_record xs | _ \<Rightarrow> False)"

text \<open>
  The response envelope that the specification describes: a JSON object with a boolean
  \<^verbatim>\<open>success\<close> and a string \<^verbatim>\<open>message\<close>.  \<open>is_success\<close> reads the flag and
  \<open>has_data\<close> says that the object has a \<^verbatim>\<open>data\<close> property.
\<close>

definition has_envelope :: "response \<Rightarrow> bool" where
  "has_envelope r =
     (case body r of
        JObj ps \<Rightarrow>
          (case map_of ps (js ''success'') of Some (JBool b) \<Rightarrow> True | _ \<Rightarrow> False)
          \<and> (case map_of ps (js ''message'') of Some (JStr m) \<Rightarrow> True | _ \<Rightarrow> False)
      | _ \<Rightarrow> False)"

definition is_success :: "response \<Rightarrow> bool" where
  "is_success r = (get_prop (body r) (js ''success'') = Inr (Some (JBool True)))"

definition has_data :: "response \<Rightarrow> bool" where
  "has_data r = (case get_prop (body r) (js ''data'') of Inr (Some d) \<Rightarrow> True | _ \<Rightarrow> False)"

text \<open>
  A value read from the request body that is a string, and one that is a string which
  is empty after trimming.
\<close>

definition is_string :: "json option \<Rightarrow> bool" where
  "is_string x = (case x of Some (JStr s) \<Rightarrow> True | _ \<Rightarrow> False)"

definition blank_string :: "json option \<Rightarrow> bool" where
  "blank_string x = (case x of Some (JStr s) \<Rightarrow> trim s = [] | _ \<Rightarrow> False)"

text \<open>
  The successful additions of a run: for every \<^verbatim>\<open>POST\<close> that was answered with
  201, the clock it read and its response.  \<open>returned_id\<close> is
  \<^verbatim>\<open>data.contact.id\<close> of a response.
\<close>

definition is_post :: "request \<Rightarrow> bool" where
  "is_post rq = (case rq of PostContact b \<Rightarrow> True | _ \<Rightarrow> False)"

fun additions :: "artifact \<Rightarrow> (env \<times> request) list \<Rightarrow> (int \<times> response) list" where
  "additions a [] = []"
| "additions a (er # rest) =
     (let ra = handle (fst er) (snd er) a
      in (if is_post (snd er) \<and> status (fst ra) = 201 then [(clock (fst er), fst ra)] else [])
         @ additions (snd ra) rest)"

definition returned_id :: "response \<Rightarrow> json option" where
  "returned_id r =
     (case get_prop (body r) (js ''data'') of
        Inr (Some d) \<Rightarrow>
          (case get_prop d (js ''contact'') of
             Inr (Some c) \<Rightarrow> (case get_prop c (js ''id'') of Inr x \<Rightarrow> x | _ \<Rightarrow> None)
           | _ \<Rightarrow> None)
      | _ \<Rightarrow> None)"


text \<open>
  The two conditions under which \<^verbatim>\<open>JSON.parse\<close> reads a value back from the text
  that \<^verbatim>\<open>JSON.stringify\<close> writes for it.  \<open>ordered\<close>: the properties of every object
  are in property order with no key twice (building the object from its own properties
  gives it back).  \<open>rereads\<close>: every number is read back from its own text; an infinity
  is not, it is written as \<^verbatim>\<open>null\<close>, nor is the negative zero, written as \<^verbatim>\<open>0\<close>.
  \<open>canonical\<close> is both.
\<close>

fun ordered :: "json \<Rightarrow> bool"
  and ordered_list :: "json list \<Rightarrow> bool"
  and ordered_members :: "(jsstring \<times> json) list \<Rightarrow> bool"
where
  "ordered JNull = True"
| "ordered (JBool b) = True"
| "ordered (JNum x) = True"
| "ordered (JStr s) = True"
| "ordered (JArr xs) = ordered_list xs"
| "ordered (JObj ps) = (make_object ps = ps \<and> ordered_members ps)"
| "ordered_list [] = True"
| "ordered_list (x # xs) = (ordered x \<and> ordered_list xs)"
| "ordered_members [] = True"
| "ordered_members (kv # ps) = (ordered (snd kv) \<and> ordered_members ps)"

fun rereads :: "json \<Rightarrow> bool"
  and rereads_list :: "json list \<Rightarrow> bool"
  and rereads_members :: "(jsstring \<times> json) list \<Rightarrow> bool"
where
  "rereads JNull = True"
| "rereads (JBool b) = True"
| "rereads (JNum x) = (parse_number (number_text x) = Some (JNum x, []))"
| "rereads (JStr s) = True"
| "rereads (JArr xs) = rereads_list xs"
| "rereads (JObj ps) = rereads_members ps"
| "rereads_list [] = True"
| "rereads_list (x # xs) = (rereads x \<and> rereads_list xs)"
| "rereads_members [] = True"
| "rereads_members (kv # ps) = (rereads (snd kv) \<and> rereads_members ps)"

fun canonical :: "json \<Rightarrow> bool"
  and canonical_list :: "json list \<Rightarrow> bool"
  and canonical_members :: "(jsstring \<times> json) list \<Rightarrow> bool"
where
  "canonical JNull = True"
| "canonical (JBool b) = True"
| "canonical (JNum x) = (parse_number (number_text x) = Some (JNum x, []))"
| "canonical (JStr s) = True"
| "canonical (JArr xs) = canonical_list xs"
| "canonical (JObj ps) = (make_object ps = ps \<and> canonical_members ps)"
| "canonical_list [] = True"
| "canonical_list (x # xs) = (canonical x \<and> canonical_list xs)"
| "canonical_members [] = True"
| "canonical_members (kv # ps) = (canonical (snd kv) \<and> canonical_members ps)"

text \<open>
  Property order of a list of keys: no key twice, the array-index keys first and in
  ascending numeric order, the other keys after them.
\<close>

fun key_order :: "jsstring list \<Rightarrow> bool" where
  "key_order [] = True"
| "key_order (k # ks) =
     (k \<notin> set ks \<and> key_order ks
      \<and> (if is_array_index k
          then (\<forall>k' \<in> set ks. is_array_index k' \<longrightarrow> digits_val k < digits_val k')
          else (\<forall>k' \<in> set ks. \<not> is_array_index k')))"

text \<open>
  What may follow a number in a JSON text, and what a JSON value may start with.
\<close>

definition number_ends :: "jsstring \<Rightarrow> bool" where
  "number_ends r \<longleftrightarrow> (case r of [] \<Rightarrow> True | c # cs \<Rightarrow> \<not> is_digit c \<and> c \<noteq> 0x2E \<and> c \<noteq> 0x65 \<and> c \<noteq> 0x45)"

definition value_start :: "jschar \<Rightarrow> bool" where
  "value_start c \<longleftrightarrow> \<not> is_json_ws c \<and> c \<noteq> 0x5D \<and> c \<noteq> 0x7D"


text \<open>Strings without surrogate code units.\<close>

definition plain16 :: "jsstring \<Rightarrow> bool" where
  "plain16 s = list_all (\<lambda>c. \<not> is_high_surrogate c \<and> \<not> is_low_surrogate c) s"


section \<open>The recursion of the parser\<close>

text \<open>
  Every value that is read takes at least one code unit of the input.  So the
  comparisons of lengths in \<open>parse_elements\<close> and \<open>parse_members\<close> never fail,
  and the two functions satisfy the recursion equations of the grammar without them.
\<close>

lemma parse_chars_shorter: "parse_chars s = Some (str, r) \<Longrightarrow> length r < length s"
proof (induction s arbitrary: str r rule: parse_chars.induct)
  case 1
  then show ?case by simp
next
  case (2 c cs)
  show ?case
  proof (cases "c = 0x22")
    case True
    with 2(4) show ?thesis by simp
  next
    case q: False
    show ?thesis
    proof (cases "c = 0x5C")
      case True
      note bs = this
      show ?thesis
      proof (cases cs)
        case Nil
        with 2(4) q bs show ?thesis by simp
      next
        case (Cons e cs')
        show ?thesis
        proof (cases "e = 0x75")
          case True
          with 2(4) q bs Cons obtain u str' where
            u: "hex4 (take 4 cs') = Some u" and p: "parse_chars (drop 4 cs') = Some (str', r)"
            by (auto split: option.splits)
          from 2(1) [OF q bs Cons True u p] Cons show ?thesis by simp
        next
          case False
          with 2(4) q bs Cons obtain u str' where
            u: "unescape e = Some u" and p: "parse_chars cs' = Some (str', r)"
            by (auto split: option.splits)
          from 2(2) [OF q bs Cons False u p] Cons show ?thesis by simp
        qed
      qed
    next
      case False
      with 2(4) q obtain str' where p: "parse_chars cs = Some (str', r)" and "\<not> c < 0x20"
        by (auto split: if_splits)
      from 2(3) [OF q False this(2) p] show ?thesis by simp
    qed
  qed
qed

lemma parse_fraction_shorter: "parse_fraction s = Some (fp, r) \<Longrightarrow> length r \<le> length s"
  using length_dropWhile_le [of is_digit "tl s"]
  by (cases s) (auto simp: parse_fraction_def split: if_splits)

lemma parse_exponent_shorter: "parse_exponent s = Some (e, r) \<Longrightarrow> length r \<le> length s"
proof (cases s)
  case Nil
  then show "parse_exponent s = Some (e, r) \<Longrightarrow> length r \<le> length s"
    by (simp add: parse_exponent_def)
next
  case (Cons c cs)
  assume a: "parse_exponent s = Some (e, r)"
  have "length (dropWhile is_digit (tl cs)) \<le> length cs"
    using length_dropWhile_le [of is_digit "tl cs"] by simp
  with a Cons length_dropWhile_le [of is_digit cs] show "length r \<le> length s"
    by (auto simp: parse_exponent_def Let_def split: if_splits)
qed

lemma parse_number_shorter: "parse_number s = Some (v, r) \<Longrightarrow> length r < length s"
proof -
  assume a: "parse_number s = Some (v, r)"
  define s1 where "s1 = (if s \<noteq> [] \<and> hd s = 0x2D then tl s else s)"
  from a obtain fp s3 e where ip: "takeWhile is_digit s1 \<noteq> []"
    and f: "parse_fraction (dropWhile is_digit s1) = Some (fp, s3)"
    and x: "parse_exponent s3 = Some (e, r)"
    unfolding parse_number_def Let_def s1_def
    by (auto split: if_splits option.splits)
  have l1: "length s1 \<le> length s" by (simp add: s1_def)
  have "length s1 = length (takeWhile is_digit s1) + length (dropWhile is_digit s1)"
    by (metis length_append takeWhile_dropWhile_id)
  with ip have l2: "length (dropWhile is_digit s1) < length s1"
    by (cases "takeWhile is_digit s1") simp_all
  from parse_fraction_shorter [OF f] parse_exponent_shorter [OF x] l1 l2
  show ?thesis by simp
qed

lemma parse_shorter:
  "parse_value s = Some (v, r) \<Longrightarrow> length r < length s"
  "parse_elements s = Some (vs, r) \<Longrightarrow> length r < length s"
  "parse_members s = Some (ms, r) \<Longrightarrow> length r < length s"
proof (induction s and s and s arbitrary: v r and vs r and ms r
       rule: parse_value_parse_elements_parse_members.induct)
  case (1 s)
  from "1.prems" obtain c cs where sk: "skip_ws s = c # cs"
    by (subst (asm) parse_value.simps) (auto split: list.splits)
  note len = skip_ws_Cons_length [OF sk]
  show ?case
  proof (cases "c = 0x5B")
    case True
    with "1.prems" sk obtain d ds where sk2: "skip_ws cs = d # ds"
      by (subst (asm) parse_value.simps) (auto split: list.splits)
    note len2 = skip_ws_Cons_length [OF sk2]
    show ?thesis
    proof (cases "d = 0x5D")
      case d: True
      with "1.prems" sk True sk2 have "r = ds"
        by (subst (asm) parse_value.simps) simp
      with len len2 show ?thesis by simp
    next
      case d: False
      with "1.prems" sk True sk2 obtain vs where "parse_elements (d # ds) = Some (vs, r)"
        by (subst (asm) parse_value.simps) auto
      from "1.IH"(1) [OF sk True sk2 d this] len len2 show ?thesis by simp
    qed
  next
    case nb: False
    show ?thesis
    proof (cases "c = 0x7B")
      case True
      with "1.prems" sk nb obtain d ds where sk2: "skip_ws cs = d # ds"
        by (subst (asm) parse_value.simps) (auto split: list.splits)
      note len2 = skip_ws_Cons_length [OF sk2]
      show ?thesis
      proof (cases "d = 0x7D")
        case d: True
        with "1.prems" sk nb True sk2 have "r = ds"
          by (subst (asm) parse_value.simps) simp
        with len len2 show ?thesis by simp
      next
        case d: False
        with "1.prems" sk nb True sk2 obtain ms where "parse_members (d # ds) = Some (ms, r)"
          by (subst (asm) parse_value.simps) auto
        from "1.IH"(2) [OF sk nb True sk2 d this] len len2 show ?thesis by simp
      qed
    next
      case no: False
      from "1.prems" sk nb no have
        "(\<exists>str. parse_chars cs = Some (str, r)) \<or> r = drop 4 (c # cs) \<or> r = drop 5 (c # cs)
          \<or> (\<exists>n. parse_number (c # cs) = Some (n, r))"
        by (subst (asm) parse_value.simps) (auto split: if_splits)
      then show ?thesis
        using len parse_chars_shorter [of cs _ r] parse_number_shorter [of "c # cs" _ r]
        by auto
    qed
  qed
next
  case (2 s)
  from "2.prems" obtain v r1 where pv: "parse_value s = Some (v, r1)"
    by (subst (asm) parse_elements.simps) (auto split: option.splits)
  note l1 = "2.IH"(1) [OF pv]
  from "2.prems" pv obtain c cs where sk: "skip_ws r1 = c # cs"
    by (subst (asm) parse_elements.simps) (auto split: list.splits)
  note l2 = skip_ws_Cons_length [OF sk]
  show ?case
  proof (cases "c = 0x5D")
    case True
    with "2.prems" pv sk have "r = cs"
      by (subst (asm) parse_elements.simps) simp
    with l1 l2 show ?thesis by simp
  next
    case False
    with "2.prems" pv sk obtain vs' where
      g: "c = 0x2C \<and> length cs < length s" and pe: "parse_elements cs = Some (vs', r)"
      by (subst (asm) parse_elements.simps) (auto split: if_splits)
    from "2.IH"(2) [OF pv refl sk False g pe] g show ?thesis by simp
  qed
next
  case (3 s)
  from "3.prems" obtain q s1 where sk: "skip_ws s = q # s1"
    by (subst (asm) parse_members.simps) (auto split: list.splits)
  from "3.prems" sk have q: "\<not> q \<noteq> 0x22"
    by (subst (asm) parse_members.simps) (auto split: if_splits)
  from "3.prems" sk q obtain k s2 where pc: "parse_chars s1 = Some (k, s2)"
    by (subst (asm) parse_members.simps) (auto split: option.splits)
  from "3.prems" sk q pc obtain col s3 where sk2: "skip_ws s2 = col # s3"
    by (subst (asm) parse_members.simps) (auto split: list.splits)
  from "3.prems" sk q pc sk2 have g: "\<not> (col \<noteq> 0x3A \<or> length s \<le> length s3)"
    by (subst (asm) parse_members.simps) (auto split: if_splits)
  from "3.prems" sk q pc sk2 g obtain v s4 where pv: "parse_value s3 = Some (v, s4)"
    by (subst (asm) parse_members.simps) (auto split: option.splits)
  note l4 = "3.IH"(1) [OF sk q pc refl sk2 g pv]
  from "3.prems" sk q pc sk2 g pv obtain e s5 where sk3: "skip_ws s4 = e # s5"
    by (subst (asm) parse_members.simps) (auto split: list.splits)
  note l5 = skip_ws_Cons_length [OF sk3]
  show ?case
  proof (cases "e = 0x7D")
    case True
    with "3.prems" sk q pc sk2 g pv sk3 have "r = s5"
      by (subst (asm) parse_members.simps) auto
    with l4 l5 g show ?thesis by simp
  next
    case False
    with "3.prems" sk q pc sk2 g pv sk3 obtain ms' where
      g2: "e = 0x2C \<and> length s5 < length s" and pm: "parse_members s5 = Some (ms', r)"
      by (subst (asm) parse_members.simps) (auto split: if_splits)
    from "3.IH"(2) [OF sk q pc refl sk2 g pv refl sk3 False g2 pm] g2 show ?thesis by simp
  qed
qed

lemma parse_elements_unfold:
  "parse_elements s =
     (case parse_value s of
        None \<Rightarrow> None
      | Some (v, r) \<Rightarrow>
          (case skip_ws r of
             [] \<Rightarrow> None
           | c # cs \<Rightarrow>
               if c = 0x5D then Some ([v], cs)
               else if c = 0x2C
               then map_option (\<lambda>(vs, r'). (v # vs, r')) (parse_elements cs)
               else None))"
proof (cases "parse_value s")
  case None
  then show ?thesis by (subst parse_elements.simps) simp
next
  case (Some vr)
  obtain v r where vr: "vr = (v, r)" by (cases vr)
  note l = parse_shorter(1) [OF Some [unfolded vr]]
  show ?thesis
  proof (cases "skip_ws r")
    case Nil
    with Some vr show ?thesis by (subst parse_elements.simps) simp
  next
    case (Cons c cs)
    from skip_ws_Cons_length [OF Cons] l have "length cs < length s" by simp
    with Some vr Cons show ?thesis by (subst parse_elements.simps) simp
  qed
qed

lemma parse_members_unfold:
  "parse_members s =
     (case skip_ws s of
        [] \<Rightarrow> None
      | q # s1 \<Rightarrow>
          if q \<noteq> 0x22 then None
          else
            (case parse_chars s1 of
               None \<Rightarrow> None
             | Some (k, s2) \<Rightarrow>
                 (case skip_ws s2 of
                    [] \<Rightarrow> None
                  | col # s3 \<Rightarrow>
                      if col \<noteq> 0x3A then None
                      else
                        (case parse_value s3 of
                           None \<Rightarrow> None
                         | Some (v, s4) \<Rightarrow>
                             (case skip_ws s4 of
                                [] \<Rightarrow> None
                              | e # s5 \<Rightarrow>
                                  if e = 0x7D then Some ([(k, v)], s5)
                                  else if e = 0x2C
                                  then map_option (\<lambda>(ms, r). ((k, v) # ms, r)) (parse_members s5)
                                  else None)))))"
proof (cases "skip_ws s")
  case Nil
  then show ?thesis by (subst parse_members.simps) simp
next
  case (Cons q s1)
  note l1 = skip_ws_Cons_length [OF Cons]
  show ?thesis
  proof (cases "parse_chars s1")
    case None
    with Cons show ?thesis by (subst parse_members.simps) simp
  next
    case (Some ks)
    obtain k s2 where ks: "ks = (k, s2)" by (cases ks)
    note l2 = parse_chars_shorter [OF Some [unfolded ks]]
    show ?thesis
    proof (cases "skip_ws s2")
      case Nil
      with Cons Some ks show ?thesis by (subst parse_members.simps) simp
    next
      case c3: (Cons col s3)
      from skip_ws_Cons_length [OF c3] l1 l2 have l3: "length s3 < length s" by simp
      show ?thesis
      proof (cases "parse_value s3")
        case None
        with Cons Some ks c3 l3 show ?thesis by (subst parse_members.simps) simp
      next
        case pv: (Some vs4)
        obtain v s4 where vs4: "vs4 = (v, s4)" by (cases vs4)
        note l4 = parse_shorter(1) [OF pv [unfolded vs4]]
        show ?thesis
        proof (cases "skip_ws s4")
          case Nil
          with Cons Some ks c3 l3 pv vs4 show ?thesis by (subst parse_members.simps) simp
        next
          case c5: (Cons e s5)
          from skip_ws_Cons_length [OF c5] l3 l4 have "length s5 < length s" by simp
          with Cons Some ks c3 l3 pv vs4 c5 show ?thesis by (subst parse_members.simps) simp
        qed
      qed
    qed
  qed
qed


section \<open>Reading back what \<^verbatim>\<open>JSON.stringify\<close> wrote\<close>

subsection \<open>Decimal digits\<close>

lemma unat_digit_char: "d < 10 \<Longrightarrow> unat (digit_char d) = 48 + d"
  unfolding digit_char_def by (simp only: unat_of_nat) simp

lemma is_digit_unat: "is_digit c \<longleftrightarrow> 48 \<le> unat c \<and> unat c \<le> 57"
  by (simp add: is_digit_def word_le_nat_alt)

lemma digits_of_digits: "list_all is_digit (digits_of n)"
proof (induction n rule: digits_of.induct)
  case (1 n)
  show ?case
  proof (cases "n < 10")
    case True
    then show ?thesis by (subst digits_of.simps) (simp add: is_digit_unat unat_digit_char)
  next
    case False
    have "n mod 10 < 10" by simp
    then have "is_digit (digit_char (n mod 10))"
      by (simp only: is_digit_unat unat_digit_char) simp
    with False 1 show ?thesis
      by (subst digits_of.simps) simp
  qed
qed

lemma digit_val_digit_char: "d < 10 \<Longrightarrow> digit_val (digit_char d) = d"
  by (simp add: digit_val_def unat_digit_char)

lemma digits_val_snoc: "digits_val (ds @ [c]) = 10 * digits_val ds + digit_val c"
  by (simp add: digits_val_def)

lemma digits_val_digits_of: "digits_val (digits_of n) = n"
proof (induction n rule: digits_of.induct)
  case (1 n)
  show ?case
  proof (cases "n < 10")
    case True
    then show ?thesis
      by (subst digits_of.simps) (simp add: digits_val_def digit_val_digit_char)
  next
    case False
    with 1 show ?thesis
      by (subst digits_of.simps) (simp add: digits_val_snoc digit_val_digit_char)
  qed
qed

lemma digits_of_inj: "digits_of m = digits_of n \<Longrightarrow> m = n"
  by (metis digits_val_digits_of)

lemma digits_of_no_minus: "0x2D # ds \<noteq> digits_of n"
proof
  assume "0x2D # ds = digits_of n"
  with digits_of_digits [of n] have "list_all is_digit (0x2D # ds)"
    by simp
  then have "is_digit 0x2D"
    by simp
  then show False by (simp add: is_digit_unat)
qed

lemma int_toString_inj: "int_toString i = int_toString j \<Longrightarrow> i = j"
  using digits_of_no_minus [of _ "nat i"] digits_of_no_minus [of _ "nat j"]
        digits_of_no_minus [of _ "nat (- i)"] digits_of_no_minus [of _ "nat (- j)"]
  by (auto simp: int_toString_def split: if_splits dest!: digits_of_inj)

lemma digits_of_nonempty: "digits_of n \<noteq> []"
  by (subst digits_of.simps) simp

lemma length_digits_of_small: "n < 10 \<Longrightarrow> length (digits_of n) = 1"
  by (subst digits_of.simps) simp

lemma hd_digits_of: "0 < n \<Longrightarrow> hd (digits_of n) \<noteq> 0x30"
proof (induction n rule: digits_of.induct)
  case (1 n)
  show ?case
  proof (cases "n < 10")
    case True
    have "unat (digit_char n) = 48 + n" using True by (rule unat_digit_char)
    with 1(2) have "digit_char n \<noteq> 0x30" by auto
    with True show ?thesis by (subst digits_of.simps) simp
  next
    case False
    then have "0 < n div 10" by simp
    from 1(1) [OF False this] False show ?thesis
      by (subst digits_of.simps) (simp add: digits_of_nonempty)
  qed
qed

lemma leading_zero_ok: "\<not> (hd (digits_of n) = 0x30 \<and> 1 < length (digits_of n))"
proof (cases "n < 10")
  case True
  then show ?thesis by (simp add: length_digits_of_small)
next
  case False
  then have "0 < n" by simp
  from hd_digits_of [OF this] show ?thesis by simp
qed

lemma digits_not_minus: "list_all is_digit ds \<Longrightarrow> ds \<noteq> [] \<Longrightarrow> hd ds \<noteq> 0x2D"
  by (cases ds) (auto simp: is_digit_unat)

lemma digits_val_zeros: "digits_val (replicate j 0x30 @ ds) = digits_val ds"
proof -
  have "foldl (\<lambda>a c. 10 * a + digit_val c) 0 (replicate j 0x30) = 0"
    by (induction j) (simp_all add: digit_val_def)
  then show ?thesis by (simp add: digits_val_def)
qed

lemma zeros_digits: "list_all is_digit (replicate j 0x30)"
  by (simp add: list_all_iff is_digit_unat)

lemma hd_digits_of_plain:
  "\<exists>c cs. digits_of n = c # cs \<and> is_digit c"
  using digits_of_digits [of n] digits_of_nonempty [of n] by (cases "digits_of n") auto

lemma digit_not_structural:
  "is_digit c \<Longrightarrow> \<not> is_json_ws c \<and> c \<noteq> 0x5D \<and> c \<noteq> 0x7D \<and> c \<noteq> 0x5B \<and> c \<noteq> 0x7B \<and> c \<noteq> 0x22"
  by (auto simp: is_digit_unat is_json_ws_def)


subsection \<open>Strings\<close>

lemma unat_hex_digit: "d < 16 \<Longrightarrow> unat (hex_digit d) = (if d < 10 then 48 + d else 87 + d)"
  unfolding hex_digit_def by (simp only: unat_of_nat split: if_split) simp

lemma hex_val_unat:
  "hex_val c =
     (if 48 \<le> unat c \<and> unat c \<le> 57 then Some (unat c - 48)
      else if 97 \<le> unat c \<and> unat c \<le> 102 then Some (unat c - 87)
      else if 65 \<le> unat c \<and> unat c \<le> 70 then Some (unat c - 55)
      else None)"
  by (simp add: hex_val_def word_le_nat_alt)

lemma hex_val_hex_digit: "d < 16 \<Longrightarrow> hex_val (hex_digit d) = Some d"
  by (simp add: hex_val_unat unat_hex_digit)

lemma hex_recombine:
  fixes n :: nat
  shows "((n div 4096 * 16 + n div 256 mod 16) * 16 + n div 16 mod 16) * 16 + n mod 16 = n"
proof -
  define a where "a = n div 16"
  define b where "b = a div 16"
  define c where "c = b div 16"
  have b: "n div 256 = b" by (simp add: a_def b_def div_mult2_eq [symmetric])
  have c: "n div 4096 = c" by (simp add: a_def b_def c_def div_mult2_eq [symmetric])
  have 1: "a * 16 + n mod 16 = n" by (simp add: a_def)
  have 2: "b * 16 + a mod 16 = a" by (simp add: b_def)
  have 3: "c * 16 + b mod 16 = b" by (simp add: c_def)
  show ?thesis unfolding b c a_def [symmetric] by (simp only: 1 2 3)
qed

lemma hex4_digits:
  "hex4 [hex_digit (unat c div 4096), hex_digit (unat c div 256 mod 16),
         hex_digit (unat c div 16 mod 16), hex_digit (unat c mod 16)] = Some c"
proof -
  have lt: "unat c < 65536" using unsigned_less [of c, where 'a=nat] by simp
  then have d1: "unat c div 4096 < 16" by simp
  have "hex4 [hex_digit (unat c div 4096), hex_digit (unat c div 256 mod 16),
         hex_digit (unat c div 16 mod 16), hex_digit (unat c mod 16)] =
      Some (of_nat (((unat c div 4096 * 16 + unat c div 256 mod 16) * 16 + unat c div 16 mod 16) * 16 + unat c mod 16))"
    unfolding hex4_def
    using d1 by (simp add: hex_val_hex_digit del: of_nat_add of_nat_mult)
  then show ?thesis by (simp only: hex_recombine of_nat_unat) simp
qed

lemma parse_chars_unicode_escape:
  "parse_chars (unicode_escape c @ r) = map_option (\<lambda>(str, r'). (c # str, r')) (parse_chars r)"
  unfolding unicode_escape_def by (simp add: hex4_digits)

lemma not_special_literal:
  "c \<noteq> 0x22 \<Longrightarrow> c \<noteq> 0x5C \<Longrightarrow> \<not> c < 0x20 \<Longrightarrow>
   parse_chars (c # r) = map_option (\<lambda>(str, r'). (c # str, r')) (parse_chars r)"
  by simp

lemma parse_chars_quote_char:
  "parse_chars (quote_char c @ r) = map_option (\<lambda>(str, r'). (c # str, r')) (parse_chars r)"
  unfolding quote_char_def
  by (simp add: parse_chars_unicode_escape unescape_def)

lemma surrogate_not_special:
  assumes "is_high_surrogate c \<or> is_low_surrogate c"
  shows "c \<noteq> 0x22" "c \<noteq> 0x5C" "\<not> c < 0x20"
  using assms unfolding is_high_surrogate_def is_low_surrogate_def
  by (auto simp: word_le_nat_alt word_less_nat_alt)

lemma parse_chars_surrogate:
  "is_high_surrogate c \<or> is_low_surrogate c \<Longrightarrow>
   parse_chars (c # r) = map_option (\<lambda>(str, r'). (c # str, r')) (parse_chars r)"
  using surrogate_not_special [of c] by simp

lemma parse_chars_quote_chars:
  "parse_chars (quote_chars s @ 0x22 # rest) = Some (s, rest)"
proof (induction s rule: quote_chars.induct)
  case 1
  show ?case by simp
next
  case (2 c cs)
  show ?case
  proof (cases "is_high_surrogate c")
    case True
    note hi = this
    show ?thesis
    proof (cases cs)
      case Nil
      with hi show ?thesis by (simp add: parse_chars_unicode_escape)
    next
      case (Cons d ds)
      show ?thesis
      proof (cases "is_low_surrogate d")
        case True
        with hi Cons 2(1) [OF hi Cons True] show ?thesis
          by (simp add: parse_chars_surrogate del: parse_chars.simps)
      next
        case False
        with hi Cons 2(2) [OF hi Cons False] show ?thesis
          by (simp add: parse_chars_unicode_escape del: parse_chars.simps)
      qed
    qed
  next
    case False
    note nhi = this
    show ?thesis
    proof (cases "is_low_surrogate c")
      case True
      with nhi 2(3) [OF nhi True] show ?thesis
        by (simp add: parse_chars_unicode_escape del: parse_chars.simps)
    next
      case False
      with nhi 2(4) [OF nhi False] show ?thesis
        by (simp add: parse_chars_quote_char del: parse_chars.simps)
    qed
  qed
qed

lemma skip_ws_simps:
  "skip_ws (0x0A # r) = skip_ws r"
  "skip_ws (0x20 # r) = skip_ws r"
  "skip_ws (indent_str n @ r) = skip_ws r"
  "skip_ws (0x22 # r) = 0x22 # r"
  "skip_ws (0x2C # r) = 0x2C # r"
  "skip_ws (0x3A # r) = 0x3A # r"
  "skip_ws (0x5B # r) = 0x5B # r"
  "skip_ws (0x5D # r) = 0x5D # r"
  "skip_ws (0x7B # r) = 0x7B # r"
  "skip_ws (0x7D # r) = 0x7D # r"
  by (simp_all add: skip_ws_def is_json_ws_def indent_str_def dropWhile_append)

lemma skip_ws_ws: "list_all is_json_ws ws \<Longrightarrow> skip_ws (ws @ r) = skip_ws r"
  by (induction ws) (simp_all add: skip_ws_def)

lemma parse_value_string:
  assumes "list_all is_json_ws ws"
  shows "parse_value (ws @ QuoteJSONString str @ rest) = Some (JStr str, rest)"
  by (subst parse_value.simps)
     (simp add: skip_ws_ws [OF assms] QuoteJSONString_def skip_ws_simps parse_chars_quote_chars)

lemma make_object_contact:
  "make_object [(js ''id'', a), (js ''name'', b), (js ''phone'', c)]
     = [(js ''id'', a), (js ''name'', b), (js ''phone'', c)]"
  by (simp add: make_object_def obj_put_def is_array_index_def js_def is_digit_def)

lemma ws_newline_indent: "list_all is_json_ws (0x0A # indent_str n)"
  by (simp add: is_json_ws_def indent_str_def list_all_iff)

subsection \<open>Numbers\<close>

lemma takeWhile_digits:
  "list_all is_digit ds \<Longrightarrow> number_ends r \<Longrightarrow> takeWhile is_digit (ds @ r) = ds"
  by (cases r) (auto simp: number_ends_def list_all_iff takeWhile_append2 takeWhile_eq_all_conv [THEN iffD2])

lemma dropWhile_digits:
  "list_all is_digit ds \<Longrightarrow> number_ends r \<Longrightarrow> dropWhile is_digit (ds @ r) = r"
  by (cases r) (auto simp: number_ends_def list_all_iff dropWhile_append2)

lemma parse_fraction_none: "number_ends r \<Longrightarrow> parse_fraction r = Some ([], r)"
  by (cases r) (auto simp: parse_fraction_def number_ends_def)

lemma parse_exponent_none: "number_ends r \<Longrightarrow> parse_exponent r = Some (0, r)"
  by (cases r) (auto simp: parse_exponent_def number_ends_def)

lemma digits_split:
  assumes "r = [] \<or> \<not> is_digit (hd r)"
  shows "takeWhile is_digit (cs @ r) = takeWhile is_digit cs"
    and "dropWhile is_digit (cs @ r) = dropWhile is_digit cs @ r"
  using assms by (induction cs) (auto simp: takeWhile_eq_Nil_iff dropWhile_eq_self_iff)

lemma number_ends_no_digit: "number_ends r \<Longrightarrow> r = [] \<or> \<not> is_digit (hd r)"
  by (cases r) (simp_all add: number_ends_def)

text \<open>
  A text that is a number as a whole is read as that number before everything that
  cannot continue a number.
\<close>

lemma parse_exponent_append:
  assumes "parse_exponent s = Some (e, [])" and "number_ends r"
  shows "parse_exponent (s @ r) = Some (e, r)"
proof (cases s)
  case Nil
  with assms show ?thesis by (simp add: parse_exponent_none) (simp add: parse_exponent_def)
next
  case (Cons c cs)
  note nd = number_ends_no_digit [OF assms(2)]
  from assms(1) Cons have c: "c = 0x65 \<or> c = 0x45"
    by (auto simp: parse_exponent_def split: if_splits)
  define ds where "ds = (if cs \<noteq> [] \<and> (hd cs = 0x2D \<or> hd cs = 0x2B) then tl cs else cs)"
  from assms(1) Cons c have t: "takeWhile is_digit ds \<noteq> []" and d: "dropWhile is_digit ds = []"
    and e: "e = (if cs \<noteq> [] \<and> hd cs = 0x2D then - int (digits_val (takeWhile is_digit ds))
                 else int (digits_val (takeWhile is_digit ds)))"
    by (auto simp: parse_exponent_def Let_def ds_def split: if_splits)
  from t have "ds \<noteq> []" by auto
  then have ne: "cs \<noteq> []" by (auto simp: ds_def)
  then have hd: "hd (cs @ r) = hd cs" by simp
  show ?thesis
    unfolding Cons append_Cons parse_exponent_def list.case Let_def
    using c t d e ne hd
    by (auto simp: digits_split [OF nd] ds_def split: if_splits)
qed

lemma parse_fraction_append:
  assumes "parse_fraction s = Some (fp, s3)" and "parse_exponent s3 = Some (e, [])"
    and "number_ends r"
  shows "parse_fraction (s @ r) = Some (fp, s3 @ r)"
proof (cases s)
  case Nil
  with assms show ?thesis by (simp add: parse_fraction_none) (simp add: parse_fraction_def)
next
  case (Cons c cs)
  note nd = number_ends_no_digit [OF assms(3)]
  show ?thesis
  proof (cases "c = 0x2E")
    case True
    with assms(1) Cons show ?thesis
      by (auto simp: parse_fraction_def digits_split [OF nd] split: if_splits)
  next
    case False
    with assms(1) Cons show ?thesis
      by (auto simp: parse_fraction_def)
  qed
qed

lemma parse_number_append:
  assumes "parse_number s = Some (v, [])" and "number_ends r"
  shows "parse_number (s @ r) = Some (v, r)"
proof -
  note nd = number_ends_no_digit [OF assms(2)]
  define neg where "neg \<longleftrightarrow> s \<noteq> [] \<and> hd s = 0x2D"
  define s1 where "s1 = (if neg then tl s else s)"
  from assms(1) obtain fp s3 e where
    ip: "\<not> (takeWhile is_digit s1 = [] \<or> (hd (takeWhile is_digit s1) = 0x30 \<and> 1 < length (takeWhile is_digit s1)))"
    and f: "parse_fraction (dropWhile is_digit s1) = Some (fp, s3)"
    and x: "parse_exponent s3 = Some (e, [])"
    and v: "v = decimal neg (takeWhile is_digit s1) fp e"
    unfolding parse_number_def Let_def s1_def neg_def
    by (auto split: if_splits option.splits)
  from ip have "s1 \<noteq> []" by auto
  then have ne: "s \<noteq> []" by (cases neg) (auto simp: s1_def)
  then have neg': "(s @ r \<noteq> [] \<and> hd (s @ r) = 0x2D) = neg" by (simp add: neg_def)
  have s1': "(if neg then tl (s @ r) else s @ r) = s1 @ r"
    using ne by (simp add: s1_def)
  show ?thesis
    unfolding parse_number_def Let_def neg' s1' digits_split [OF nd]
    using ip v by (simp add: parse_fraction_append [OF f x assms(2)]
                     parse_exponent_append [OF x assms(2)])
qed

lemma parse_number_first:
  assumes "parse_number s = Some (v, r)"
  shows "\<exists>c cs. s = c # cs \<and> (is_digit c \<or> c = 0x2D)"
proof -
  define neg where "neg \<longleftrightarrow> s \<noteq> [] \<and> hd s = 0x2D"
  define s1 where "s1 = (if neg then tl s else s)"
  from assms have "takeWhile is_digit s1 \<noteq> []"
    unfolding parse_number_def Let_def s1_def neg_def by (auto split: if_splits)
  then have "s1 \<noteq> [] \<and> is_digit (hd s1)"
    by (cases s1) (auto split: if_splits)
  then show ?thesis
    by (cases s) (auto simp: s1_def neg_def split: if_splits)
qed

lemma format_number_head:
  assumes "is_digit c"
  shows "\<exists>d e. format_number (c # cs) n = d # e \<and> is_digit d"
proof -
  have z: "is_digit 0x30" by (simp add: is_digit_def)
  have "0 < n \<Longrightarrow> take (nat n) (c # cs) = c # take (nat n - 1) cs"
    by (cases "nat n") auto
  with assms z show ?thesis
    by (auto simp: format_number_def Let_def)
qed

lemma format_number_digits:
  "format_number (digits_of j) n \<noteq> []" "is_digit (hd (format_number (digits_of j) n))"
proof -
  obtain c cs where ds: "digits_of j = c # cs" and c: "is_digit c"
    using hd_digits_of_plain by blast
  from format_number_head [OF c, of cs n] ds
  show "format_number (digits_of j) n \<noteq> []" "is_digit (hd (format_number (digits_of j) n))"
    by auto
qed

lemma number_text_first: "\<exists>c cs. number_text x = c # cs \<and> (is_digit c \<or> c = 0x2D \<or> c = 0x6E)"
proof (cases x)
  case (Infinite neg)
  then show ?thesis by (simp add: number_text_def js_def)
next
  case (Finite neg m e)
  have "number_text x \<noteq> []
      \<and> (is_digit (hd (number_text x)) \<or> hd (number_text x) = 0x2D)"
    using Finite format_number_digits
    by (simp add: number_text_def Let_def hd_append js_def is_digit_def)
  then show ?thesis by (cases "number_text x") auto
qed

lemma number_ends_simps:
  "number_ends []" "number_ends (0x0A # r)" "number_ends (0x2C # r)" "number_ends (0x5D # r)"
  "number_ends (0x7D # r)"
  by (simp_all add: number_ends_def is_digit_unat)

lemma number_text_head: "\<exists>c cs. number_text x = c # cs \<and> value_start c"
proof -
  obtain c cs where n: "number_text x = c # cs" and c: "is_digit c \<or> c = 0x2D \<or> c = 0x6E"
    using number_text_first by blast
  have "value_start c"
    using c digit_not_structural [of c]
    by (auto simp: value_start_def is_json_ws_def)
  with n show ?thesis by blast
qed

subsection \<open>Every value\<close>

lemma stringify_at_head: "\<exists>c cs. stringify_at n v = c # cs \<and> value_start c"
proof (cases v)
  case (JNum x)
  with number_text_head [of x] show ?thesis by simp
qed (auto simp: js_def value_start_def is_json_ws_def QuoteJSONString_def)

lemma skip_ws_value_start: "value_start c \<Longrightarrow> skip_ws (c # cs) = c # cs"
  by (simp add: skip_ws_def value_start_def)

lemma starts_with_literal:
  "starts_with (js ''true'') (js ''true'' @ r)" "starts_with (js ''false'') (js ''false'' @ r)"
  "starts_with (js ''null'') (js ''null'' @ r)"
  "\<not> starts_with (js ''true'') (js ''false'' @ r)" "\<not> starts_with (js ''true'') (js ''null'' @ r)"
  "\<not> starts_with (js ''false'') (js ''null'' @ r)"
  by (simp_all add: starts_with_def js_def)

lemma parse_value_literals:
  assumes "list_all is_json_ws ws"
  shows "parse_value (ws @ js ''null'' @ r) = Some (JNull, r)"
    and "parse_value (ws @ js ''true'' @ r) = Some (JBool True, r)"
    and "parse_value (ws @ js ''false'' @ r) = Some (JBool False, r)"
  by (subst parse_value.simps, simp add: skip_ws_ws [OF assms],
      simp add: js_def skip_ws_def is_json_ws_def starts_with_def)+

lemma not_literal_digit:
  "is_digit c \<or> c = 0x2D \<Longrightarrow>
   \<not> starts_with (js ''true'') (c # cs) \<and> \<not> starts_with (js ''false'') (c # cs)
   \<and> \<not> starts_with (js ''null'') (c # cs) \<and> c \<noteq> 0x5B \<and> c \<noteq> 0x7B \<and> c \<noteq> 0x22
   \<and> \<not> is_json_ws c"
  by (auto simp: starts_with_def js_def is_digit_unat is_json_ws_def)

lemma parse_value_number:
  assumes "list_all is_json_ws ws" and "parse_number (number_text x) = Some (JNum x, [])"
    and "number_ends r"
  shows "parse_value (ws @ number_text x @ r) = Some (JNum x, r)"
proof -
  obtain c cs where n: "number_text x = c # cs" and c: "is_digit c \<or> c = 0x2D"
    using parse_number_first [OF assms(2)] by blast
  note nl = not_literal_digit [OF c, of "cs @ r"]
  have sk: "skip_ws (c # cs @ r) = c # cs @ r"
    using nl by (simp add: skip_ws_def)
  have pn: "parse_number (c # cs @ r) = Some (JNum x, r)"
    using parse_number_append [OF assms(2,3)] n by simp
  show ?thesis
    unfolding n
    by (subst parse_value.simps) (simp add: skip_ws_ws [OF assms(1)] sk nl pn)
qed

lemma value_start_not_close: "value_start c \<Longrightarrow> c \<noteq> 0x5D \<and> c \<noteq> 0x7D"
  by (simp add: value_start_def)

lemma stringify_elems_head:
  "vs \<noteq> [] \<Longrightarrow> \<exists>c cs. stringify_elems n vs = c # cs \<and> value_start c"
  using stringify_at_head by (cases vs) fastforce+

lemma stringify_members_head:
  "ps \<noteq> [] \<Longrightarrow> \<exists>cs. stringify_members n ps = 0x22 # cs"
  by (cases ps) (simp_all add: QuoteJSONString_def)

lemma parse_value_empty:
  assumes "list_all is_json_ws ws"
  shows "parse_value (ws @ js ''[]'' @ r) = Some (JArr [], r)"
    and "parse_value (ws @ js ''{}'' @ r) = Some (JObj [], r)"
  by (subst parse_value.simps, simp add: skip_ws_ws [OF assms] js_def skip_ws_simps)+

text \<open>
  Reading the text of a canonical value gives the value back, whatever white space
  precedes it and whatever follows it that cannot continue a number.
\<close>

lemma parse_stringify:
  "canonical v \<Longrightarrow> list_all is_json_ws ws \<Longrightarrow> number_ends r \<Longrightarrow>
     parse_value (ws @ stringify_at n v @ r) = Some (v, r)"
  "vs \<noteq> [] \<Longrightarrow> canonical_list vs \<Longrightarrow> list_all is_json_ws ws \<Longrightarrow>
     parse_elements (ws @ stringify_elems n vs @ 0x0A # indent_str i @ 0x5D # r) = Some (vs, r)"
  "ps \<noteq> [] \<Longrightarrow> canonical_members ps \<Longrightarrow> list_all is_json_ws ws \<Longrightarrow>
     parse_members (ws @ stringify_members n ps @ 0x0A # indent_str i @ 0x7D # r) = Some (ps, r)"
proof (induction n v and n vs and n ps arbitrary: ws r and ws r i and ws r i
       rule: stringify_at_stringify_elems_stringify_members.induct)
  case (1 n)
  then show ?case by (simp add: parse_value_literals)
next
  case (2 n b)
  then show ?case by (simp add: parse_value_literals)
next
  case (3 n x)
  then show ?case by (simp add: parse_value_number)
next
  case (4 n s)
  then show ?case by (simp add: parse_value_string)
next
  case (5 n xs)
  show ?case
  proof (cases "xs = []")
    case True
    show ?thesis
      unfolding True using parse_value_empty(1) [OF "5.prems"(2)] by simp
  next
    case False
    define E where "E = stringify_elems (Suc n) xs @ 0x0A # indent_str n @ 0x5D # r"
    obtain c cs where h: "stringify_elems (Suc n) xs = c # cs" and c: "value_start c"
      using stringify_elems_head [OF False] by blast
    have E: "E = c # cs @ 0x0A # indent_str n @ 0x5D # r" by (simp add: E_def h)
    have pe: "parse_elements E = Some (xs, r)"
      unfolding E_def using "5.IH" [OF False False, of "[]" n r] "5.prems"(1) by simp
    have shape: "ws @ stringify_at n (JArr xs) @ r = ws @ 0x5B # 0x0A # indent_str (Suc n) @ E"
      using False by (simp add: E_def)
    have sk: "skip_ws (0x0A # indent_str (Suc n) @ E) = c # cs @ 0x0A # indent_str n @ 0x5D # r"
      using skip_ws_ws [OF ws_newline_indent, of "Suc n" E] skip_ws_value_start [OF c]
      by (simp add: E)
    show ?thesis
      unfolding shape
      using pe value_start_not_close [OF c]
      by (subst parse_value.simps)
         (simp add: skip_ws_ws [OF "5.prems"(2)] skip_ws_simps E skip_ws_value_start [OF c])
  qed
next
  case (6 n ps)
  show ?case
  proof (cases "ps = []")
    case True
    show ?thesis
      unfolding True using parse_value_empty(2) [OF "6.prems"(2)] by simp
  next
    case False
    define M where "M = stringify_members (Suc n) ps @ 0x0A # indent_str n @ 0x7D # r"
    obtain cs where h: "stringify_members (Suc n) ps = 0x22 # cs"
      using stringify_members_head [OF False] by blast
    have M: "M = 0x22 # cs @ 0x0A # indent_str n @ 0x7D # r" by (simp add: M_def h)
    have pm: "parse_members M = Some (ps, r)"
      unfolding M_def using "6.IH" [OF False False, of "[]" n r] "6.prems"(1) by simp
    have shape: "ws @ stringify_at n (JObj ps) @ r = ws @ 0x7B # 0x0A # indent_str (Suc n) @ M"
      using False by (simp add: M_def)
    have sk: "skip_ws (0x0A # indent_str (Suc n) @ M) = 0x22 # cs @ 0x0A # indent_str n @ 0x7D # r"
      using skip_ws_ws [OF ws_newline_indent, of "Suc n" M]
      by (simp add: M skip_ws_simps)
    show ?thesis
      unfolding shape
      using pm "6.prems"(1)
      by (subst parse_value.simps) (simp add: skip_ws_ws [OF "6.prems"(2)] skip_ws_simps sk M)
  qed
next
  case (7 n)
  then show ?case by simp
next
  case (8 n x xs)
  define T where "T = (if xs = [] then 0x0A # indent_str i @ 0x5D # r
      else 0x2C # 0x0A # indent_str n @ stringify_elems n xs @ 0x0A # indent_str i @ 0x5D # r)"
  have ne: "number_ends T" by (simp add: T_def number_ends_simps)
  have shape: "ws @ stringify_elems n (x # xs) @ 0x0A # indent_str i @ 0x5D # r
          = ws @ stringify_at n x @ T"
    by (simp add: T_def)
  have pv: "parse_value (ws @ stringify_at n x @ T) = Some (x, T)"
    using "8.IH"(1) [OF _ "8.prems"(3) ne] "8.prems"(2) by simp
  show ?case
  proof (cases "xs = []")
    case True
    have sk: "skip_ws T = 0x5D # r"
      using skip_ws_ws [OF ws_newline_indent, of i "0x5D # r"] True
      by (simp add: T_def skip_ws_simps)
    show ?thesis
      unfolding shape
      by (subst parse_elements_unfold) (simp add: pv sk True)
  next
    case False
    have sk: "skip_ws T = 0x2C # 0x0A # indent_str n @ stringify_elems n xs @ 0x0A # indent_str i @ 0x5D # r"
      using False by (simp add: T_def skip_ws_simps)
    have ih: "parse_elements (0x0A # indent_str n @ stringify_elems n xs @ 0x0A # indent_str i @ 0x5D # r)
                = Some (xs, r)"
      using "8.IH"(2) [OF False False _ ws_newline_indent, of n i r] "8.prems"(2) by simp
    show ?thesis
      unfolding shape
      by (subst parse_elements_unfold) (simp add: pv sk ih)
  qed
next
  case (9 n)
  then show ?case by simp
next
  case (10 n kv ps)
  define T where "T = (if ps = [] then 0x0A # indent_str i @ 0x7D # r
      else 0x2C # 0x0A # indent_str n @ stringify_members n ps @ 0x0A # indent_str i @ 0x7D # r)"
  have ne: "number_ends T" by (simp add: T_def number_ends_simps)
  have shape: "ws @ stringify_members n (kv # ps) @ 0x0A # indent_str i @ 0x7D # r
          = ws @ 0x22 # quote_chars (fst kv) @ 0x22 # 0x3A # 0x20 # stringify_at n (snd kv) @ T"
    by (simp add: T_def QuoteJSONString_def)
  have pv: "parse_value (0x20 # stringify_at n (snd kv) @ T) = Some (snd kv, T)"
    using "10.IH"(1) [OF _ _ ne, of "[0x20]"] "10.prems"(2) by (simp add: is_json_ws_def)
  show ?case
  proof (cases "ps = []")
    case True
    have sk: "skip_ws T = 0x7D # r"
      using skip_ws_ws [OF ws_newline_indent, of i "0x7D # r"] True
      by (simp add: T_def skip_ws_simps)
    show ?thesis
      unfolding shape
      by (subst parse_members_unfold)
         (simp add: skip_ws_ws [OF "10.prems"(3)] skip_ws_simps parse_chars_quote_chars pv sk True)
  next
    case False
    have sk: "skip_ws T = 0x2C # 0x0A # indent_str n @ stringify_members n ps @ 0x0A # indent_str i @ 0x7D # r"
      using False by (simp add: T_def skip_ws_simps)
    have ih: "parse_members (0x0A # indent_str n @ stringify_members n ps @ 0x0A # indent_str i @ 0x7D # r)
                = Some (ps, r)"
      using "10.IH"(2) [OF False False _ ws_newline_indent, of n i r] "10.prems"(2) by simp
    show ?thesis
      unfolding shape
      by (subst parse_members_unfold)
         (simp add: skip_ws_ws [OF "10.prems"(3)] skip_ws_simps parse_chars_quote_chars pv sk ih)
  qed
qed

lemma JSON_parse_stringify: "canonical v \<Longrightarrow> JSON_parse (JSON_stringify v) = Inr v"
  using parse_stringify(1) [of v "[]" "[]" 0]
  by (simp add: JSON_parse_def JSON_stringify_def number_ends_simps skip_ws_def)

subsection \<open>What \<^verbatim>\<open>JSON.parse\<close> returns\<close>

text \<open>
  Every value that \<^verbatim>\<open>JSON.parse\<close> returns is ordered, so that writing it with
  \<^verbatim>\<open>JSON.stringify\<close> and parsing the text gives it back when its numbers are
  read back.
\<close>

lemma canonical_iff:
  "canonical v \<longleftrightarrow> ordered v \<and> rereads v"
  "canonical_list vs \<longleftrightarrow> ordered_list vs \<and> rereads_list vs"
  "canonical_members ps \<longleftrightarrow> ordered_members ps \<and> rereads_members ps"
  by (induction v and vs and ps rule: canonical_canonical_list_canonical_members.induct) auto

lemma parse_number_ordered: "parse_number s = Some (v, r) \<Longrightarrow> ordered v"
  by (auto simp: parse_number_def Let_def decimal_def split: if_splits option.splits)

text \<open>A canonical numeral is the numeral of its value.\<close>

lemma digits_val_small:
  "list_all is_digit s \<Longrightarrow> s \<noteq> [] \<Longrightarrow> hd s \<noteq> 0x30 \<Longrightarrow> 0 < digits_val s"
proof (induction s rule: rev_induct)
  case Nil
  then show ?case by simp
next
  case (snoc c s)
  show ?case
  proof (cases "s = []")
    case True
    from snoc.prems have "is_digit c" "c \<noteq> 0x30" using True by simp_all
    then have "48 < unat c"
      by (auto simp: is_digit_unat word_unat_eq_iff)
    with True show ?thesis by (simp add: digits_val_def digit_val_def)
  next
    case False
    with snoc have "0 < digits_val s" by simp
    then show ?thesis by (simp add: digits_val_snoc)
  qed
qed

lemma digit_char_digit_val: "is_digit c \<Longrightarrow> digit_char (digit_val c) = c"
proof -
  assume "is_digit c"
  then have b: "48 \<le> unat c" "unat c \<le> 57" by (simp_all add: is_digit_unat)
  then have "unat (digit_char (digit_val c)) = unat c"
    by (simp add: digit_val_def unat_digit_char)
  then show ?thesis by (simp add: word_unat_eq_iff)
qed

lemma digit_val_bound: "is_digit c \<Longrightarrow> digit_val c < 10"
  by (auto simp: is_digit_unat digit_val_def)

lemma digits_of_digits_val:
  "list_all is_digit s \<Longrightarrow> s \<noteq> [] \<Longrightarrow> s = [0x30] \<or> hd s \<noteq> 0x30 \<Longrightarrow>
   digits_of (digits_val s) = s"
proof (induction s rule: rev_induct)
  case Nil
  then show ?case by simp
next
  case (snoc c s)
  from snoc.prems(1) have c: "is_digit c" and ds: "list_all is_digit s" by simp_all
  show ?case
  proof (cases "s = []")
    case True
    with c show ?thesis
      by (subst digits_of.simps)
         (simp add: digits_val_def digit_val_bound digit_char_digit_val)
  next
    case False
    with snoc.prems(3) have hd: "hd s \<noteq> 0x30" by auto
    from digits_val_small [OF ds False hd] have pos: "0 < digits_val s" .
    from snoc.IH [OF ds False] hd have ih: "digits_of (digits_val s) = s" by simp
    have v: "digits_val (s @ [c]) = 10 * digits_val s + digit_val c"
      by (rule digits_val_snoc)
    have "\<not> 10 * digits_val s + digit_val c < 10" using pos by simp
    moreover have "(10 * digits_val s + digit_val c) div 10 = digits_val s"
      using digit_val_bound [OF c] by simp
    moreover have "(10 * digits_val s + digit_val c) mod 10 = digit_val c"
      using digit_val_bound [OF c] by simp
    ultimately show ?thesis
      unfolding v by (subst digits_of.simps) (simp add: ih digit_char_digit_val [OF c])
  qed
qed

lemma array_index_numeral:
  "is_array_index a \<Longrightarrow> digits_of (digits_val a) = a"
proof -
  assume "is_array_index a"
  then have "a \<noteq> []" "list_all is_digit a" "a = [0x30] \<or> hd a \<noteq> 0x30"
    unfolding is_array_index_def by blast+
  then show ?thesis by (intro digits_of_digits_val)
qed

lemma array_index_inj:
  "is_array_index a \<Longrightarrow> is_array_index b \<Longrightarrow> digits_val a = digits_val b \<Longrightarrow> a = b"
  by (metis array_index_numeral)


text \<open>\<open>obj_put\<close> keeps the properties in property order.\<close>

lemma key_order_snoc:
  "key_order (ks @ [k]) \<longleftrightarrow>
     key_order ks \<and> k \<notin> set ks
     \<and> (is_array_index k \<longrightarrow> (\<forall>k' \<in> set ks. is_array_index k' \<and> digits_val k' < digits_val k))"
  by (induction ks) auto

lemma keys_insert_index: "fst ` set (insert_index k v ps) = insert k (fst ` set ps)"
  by (induction ps) auto

lemma key_order_insert_index:
  assumes "is_array_index k" and "k \<notin> fst ` set ps" and "key_order (map fst ps)"
  shows "key_order (map fst (insert_index k v ps))"
  using assms(2,3)
proof (induction ps)
  case Nil
  then show ?case by simp
next
  case (Cons p ps)
  from Cons.prems have kp: "k \<noteq> fst p" and kps: "k \<notin> fst ` set ps"
    and ops: "key_order (map fst ps)" by auto
  show ?case
  proof (cases "is_array_index (fst p) \<and> digits_val (fst p) < digits_val k")
    case True
    have "key_order (fst p # map fst (insert_index k v ps))"
      using Cons.prems(2) True Cons.IH [OF kps ops] kp
      by (auto simp: keys_insert_index image_iff)
    with True show ?thesis by simp
  next
    case False
    have "\<forall>k' \<in> set (map fst (p # ps)). is_array_index k' \<longrightarrow> digits_val k < digits_val k'"
    proof (intro ballI impI)
      fix k' assume k': "k' \<in> set (map fst (p # ps))" and ik': "is_array_index k'"
      show "digits_val k < digits_val k'"
      proof (cases "is_array_index (fst p)")
        case ip: True
        with False have le: "digits_val k \<le> digits_val (fst p)" by simp
        have "digits_val k \<noteq> digits_val (fst p)"
          using array_index_inj [OF assms(1) ip] kp by auto
        with le have lt: "digits_val k < digits_val (fst p)" by simp
        show ?thesis
        proof (cases "k' = fst p")
          case True
          with lt show ?thesis by simp
        next
          case False
          with k' have "k' \<in> set (map fst ps)" by auto
          with Cons.prems(2) ip ik' have "digits_val (fst p) < digits_val k'" by auto
          with lt show ?thesis by simp
        qed
      next
        case np: False
        with Cons.prems(2) have "\<forall>k'' \<in> set (map fst ps). \<not> is_array_index k''" by auto
        with k' ik' np show ?thesis by auto
      qed
    qed
    with False Cons.prems assms(1) show ?thesis by (auto simp: image_iff)
  qed
qed

lemma key_order_obj_put:
  assumes "key_order (map fst ps)"
  shows "key_order (map fst (obj_put ps k v))"
proof (cases "k \<in> fst ` set ps")
  case True
  have eq: "map (fst \<circ> (\<lambda>p. if fst p = k then (k, v) else p)) ps = map fst ps"
    by (induction ps) auto
  from True assms show ?thesis by (simp add: obj_put_def eq)
next
  case False
  show ?thesis
  proof (cases "is_array_index k")
    case True
    with False key_order_insert_index [OF True False assms] show ?thesis
      by (simp add: obj_put_def)
  next
    case ni: False
    with False assms show ?thesis
      by (simp add: obj_put_def key_order_snoc image_iff)
  qed
qed

lemma foldl_obj_put_order:
  "key_order (map fst acc) \<Longrightarrow>
   key_order (map fst (foldl (\<lambda>ps kv. obj_put ps (fst kv) (snd kv)) acc ms))"
  by (induction ms arbitrary: acc) (simp_all add: key_order_obj_put)

lemma key_order_make_object: "key_order (map fst (make_object ms))"
  unfolding make_object_def by (rule foldl_obj_put_order) simp

lemma insert_index_last:
  "\<forall>p \<in> set ps. is_array_index (fst p) \<and> digits_val (fst p) < digits_val k \<Longrightarrow>
   insert_index k v ps = ps @ [(k, v)]"
  by (induction ps) auto

lemma make_object_snoc:
  "make_object (ps @ [p]) = obj_put (make_object ps) (fst p) (snd p)"
  by (simp add: make_object_def)

lemma make_object_ordered: "key_order (map fst ps) \<Longrightarrow> make_object ps = ps"
proof (induction ps rule: rev_induct)
  case Nil
  show ?case by (simp add: make_object_def)
next
  case (snoc p ps)
  from snoc.prems have o: "key_order (map fst ps)" and nk: "fst p \<notin> fst ` set ps"
    and ix: "is_array_index (fst p) \<longrightarrow>
              (\<forall>k' \<in> set (map fst ps). is_array_index k' \<and> digits_val k' < digits_val (fst p))"
    by (simp_all add: key_order_snoc)
  have "obj_put ps (fst p) (snd p) = ps @ [p]"
  proof (cases "is_array_index (fst p)")
    case True
    with ix have "\<forall>q \<in> set ps. is_array_index (fst q) \<and> digits_val (fst q) < digits_val (fst p)"
      by auto
    from insert_index_last [OF this] True nk show ?thesis by (simp add: obj_put_def)
  next
    case False
    with nk show ?thesis by (simp add: obj_put_def)
  qed
  with snoc.IH [OF o] show ?case by (simp add: make_object_snoc)
qed

lemma make_object_idem: "make_object (make_object ms) = make_object ms"
  by (rule make_object_ordered [OF key_order_make_object])

text \<open>\<open>obj_put\<close> only stores values it is given.\<close>

lemma values_insert_index: "snd ` set (insert_index k v ps) = insert v (snd ` set ps)"
  by (induction ps) auto

lemma values_obj_put: "snd ` set (obj_put ps k v) \<subseteq> insert v (snd ` set ps)"
  by (auto simp: obj_put_def values_insert_index split: if_splits)

lemma foldl_obj_put_values:
  "snd ` set (foldl (\<lambda>ps kv. obj_put ps (fst kv) (snd kv)) acc ms) \<subseteq> snd ` set acc \<union> snd ` set ms"
proof (induction ms arbitrary: acc)
  case Nil
  show ?case by simp
next
  case (Cons m ms)
  from Cons.IH [of "obj_put acc (fst m) (snd m)"] values_obj_put [of acc "fst m" "snd m"]
  show ?case by auto
qed

lemma values_make_object: "snd ` set (make_object ms) \<subseteq> snd ` set ms"
  using foldl_obj_put_values [of "[]" ms] by (simp add: make_object_def)

lemma ordered_members_iff: "ordered_members ps \<longleftrightarrow> (\<forall>v \<in> snd ` set ps. ordered v)"
  by (induction ps) auto

lemma ordered_list_iff: "ordered_list vs \<longleftrightarrow> (\<forall>v \<in> set vs. ordered v)"
  by (induction vs) auto

lemma ordered_make_object:
  assumes "ordered_members ms"
  shows "ordered (JObj (make_object ms))"
proof -
  have "\<forall>v \<in> snd ` set (make_object ms). ordered v"
    using assms values_make_object [of ms] unfolding ordered_members_iff by blast
  then have "ordered_members (make_object ms)" unfolding ordered_members_iff .
  then show ?thesis by (simp add: make_object_idem)
qed


text \<open>Every value that the parser returns is ordered.\<close>

lemma parse_ordered:
  "parse_value s = Some (v, r) \<Longrightarrow> ordered v"
  "parse_elements s = Some (vs, r) \<Longrightarrow> ordered_list vs"
  "parse_members s = Some (ms, r) \<Longrightarrow> ordered_members ms"
proof (induction s and s and s arbitrary: v r and vs r and ms r
       rule: parse_value_parse_elements_parse_members.induct)
  case (1 s)
  from "1.prems" obtain c cs where sk: "skip_ws s = c # cs"
    by (subst (asm) parse_value.simps) (auto split: list.splits)
  show ?case
  proof (cases "c = 0x5B")
    case True
    with "1.prems" sk obtain d ds where sk2: "skip_ws cs = d # ds"
      by (subst (asm) parse_value.simps) (auto split: list.splits)
    show ?thesis
    proof (cases "d = 0x5D")
      case d: True
      with "1.prems" sk True sk2 have "v = JArr []"
        by (subst (asm) parse_value.simps) simp
      then show ?thesis by simp
    next
      case d: False
      with "1.prems" sk True sk2 obtain vs where
        pe: "parse_elements (d # ds) = Some (vs, r)" and v: "v = JArr vs"
        by (subst (asm) parse_value.simps) auto
      from "1.IH"(1) [OF sk True sk2 d pe] v show ?thesis by simp
    qed
  next
    case nb: False
    show ?thesis
    proof (cases "c = 0x7B")
      case True
      with "1.prems" sk nb obtain d ds where sk2: "skip_ws cs = d # ds"
        by (subst (asm) parse_value.simps) (auto split: list.splits)
      show ?thesis
      proof (cases "d = 0x7D")
        case d: True
        with "1.prems" sk nb True sk2 have "v = JObj []"
          by (subst (asm) parse_value.simps) simp
        then show ?thesis by (simp add: make_object_def)
      next
        case d: False
        with "1.prems" sk nb True sk2 obtain ms where
          pm: "parse_members (d # ds) = Some (ms, r)" and v: "v = JObj (make_object ms)"
          by (subst (asm) parse_value.simps) auto
        from ordered_make_object [OF "1.IH"(2) [OF sk nb True sk2 d pm]] v
        show ?thesis by simp
      qed
    next
      case no: False
      from "1.prems" sk nb no have
        "(\<exists>str. v = JStr str) \<or> (\<exists>b. v = JBool b) \<or> v = JNull
          \<or> parse_number (c # cs) = Some (v, r)"
        by (subst (asm) parse_value.simps) (auto split: if_splits)
      then show ?thesis
        using parse_number_ordered [of "c # cs" v r] by auto
    qed
  qed
next
  case (2 s)
  from "2.prems" obtain v r1 where pv: "parse_value s = Some (v, r1)"
    by (subst (asm) parse_elements.simps) (auto split: option.splits)
  note c1 = "2.IH"(1) [OF pv]
  from "2.prems" pv obtain c cs where sk: "skip_ws r1 = c # cs"
    by (subst (asm) parse_elements.simps) (auto split: list.splits)
  show ?case
  proof (cases "c = 0x5D")
    case True
    with "2.prems" pv sk have "vs = [v]"
      by (subst (asm) parse_elements.simps) auto
    with c1 show ?thesis by simp
  next
    case False
    with "2.prems" pv sk obtain vs' where
      g: "c = 0x2C \<and> length cs < length s" and pe: "parse_elements cs = Some (vs', r)"
      and vs: "vs = v # vs'"
      by (subst (asm) parse_elements.simps) (auto split: if_splits)
    from "2.IH"(2) [OF pv refl sk False g pe] c1 vs show ?thesis by simp
  qed
next
  case (3 s)
  from "3.prems" obtain q s1 where sk: "skip_ws s = q # s1"
    by (subst (asm) parse_members.simps) (auto split: list.splits)
  from "3.prems" sk have q: "\<not> q \<noteq> 0x22"
    by (subst (asm) parse_members.simps) (auto split: if_splits)
  from "3.prems" sk q obtain k s2 where pc: "parse_chars s1 = Some (k, s2)"
    by (subst (asm) parse_members.simps) (auto split: option.splits)
  from "3.prems" sk q pc obtain col s3 where sk2: "skip_ws s2 = col # s3"
    by (subst (asm) parse_members.simps) (auto split: list.splits)
  from "3.prems" sk q pc sk2 have g: "\<not> (col \<noteq> 0x3A \<or> length s \<le> length s3)"
    by (subst (asm) parse_members.simps) (auto split: if_splits)
  from "3.prems" sk q pc sk2 g obtain v s4 where pv: "parse_value s3 = Some (v, s4)"
    by (subst (asm) parse_members.simps) (auto split: option.splits)
  note c4 = "3.IH"(1) [OF sk q pc refl sk2 g pv]
  from "3.prems" sk q pc sk2 g pv obtain e s5 where sk3: "skip_ws s4 = e # s5"
    by (subst (asm) parse_members.simps) (auto split: list.splits)
  show ?case
  proof (cases "e = 0x7D")
    case True
    with "3.prems" sk q pc sk2 g pv sk3 have "ms = [(k, v)]"
      by (subst (asm) parse_members.simps) auto
    with c4 show ?thesis by simp
  next
    case False
    with "3.prems" sk q pc sk2 g pv sk3 obtain ms' where
      g2: "e = 0x2C \<and> length s5 < length s" and pm: "parse_members s5 = Some (ms', r)"
      and ms: "ms = (k, v) # ms'"
      by (subst (asm) parse_members.simps) (auto split: if_splits)
    from "3.IH"(2) [OF sk q pc refl sk2 g pv refl sk3 False g2 pm] c4 ms show ?thesis by simp
  qed
qed

lemma JSON_parse_ordered: "JSON_parse s = Inr v \<Longrightarrow> ordered v"
  by (auto simp: JSON_parse_def parse_ordered(1) split: option.splits if_splits)

lemma JSON_parse_reparse:
  "JSON_parse s = Inr v \<Longrightarrow> rereads v \<Longrightarrow> JSON_parse (JSON_stringify v) = Inr v"
  by (rule JSON_parse_stringify) (simp add: canonical_iff JSON_parse_ordered)


subsection \<open>Contact records and collections\<close>

lemma canonical_contacts: "canonical (contacts_json cs)"
proof -
  have "canonical (contact_json c)" for c
    by (simp add: contact_json_def make_object_contact)
  then have "canonical_list (map contact_json cs)"
    by (induction cs) simp_all
  then show ?thesis by (simp add: contacts_json_def)
qed

lemma JSON_parse_stringify_contacts:
  "JSON_parse (JSON_stringify (contacts_json cs)) = Inr (contacts_json cs)"
  by (rule JSON_parse_stringify [OF canonical_contacts])
subsection \<open>The UTF-8 encoding keeps the text\<close>

lemma plain16_simps:
  "plain16 []"
  "plain16 (c # s) \<longleftrightarrow> \<not> is_high_surrogate c \<and> \<not> is_low_surrogate c \<and> plain16 s"
  "plain16 (s @ t) \<longleftrightarrow> plain16 s \<and> plain16 t"
  by (simp_all add: plain16_def)

lemma plain16_ascii: "list_all (\<lambda>c. unat c < 128) s \<Longrightarrow> plain16 s"
  by (induction s) (simp_all add: plain16_def is_high_surrogate_def is_low_surrogate_def word_le_nat_alt)

lemma utf8_plain:
  "plain16 s \<Longrightarrow>
   utf8_roundtrip (s @ r) = s @ utf8_roundtrip r"
  by (induction s) (simp_all add: plain16_simps)

lemma surrogate_unat:
  "is_high_surrogate c \<longleftrightarrow> 55296 \<le> unat c \<and> unat c \<le> 56319"
  "is_low_surrogate c \<longleftrightarrow> 56320 \<le> unat c \<and> unat c \<le> 57343"
  by (simp_all add: is_high_surrogate_def is_low_surrogate_def word_le_nat_alt)

lemma ascii_plain: "unat c < 128 \<Longrightarrow> \<not> is_high_surrogate c \<and> \<not> is_low_surrogate c"
  by (simp add: surrogate_unat)

lemma plain_digits: "plain16 (digits_of n)"
  using digits_of_digits [of n] by (intro plain16_ascii) (auto simp: list_all_iff is_digit_unat)

lemma plain_hex_digit: "d < 16 \<Longrightarrow> \<not> is_high_surrogate (hex_digit d) \<and> \<not> is_low_surrogate (hex_digit d)"
  by (rule ascii_plain) (simp add: unat_hex_digit)

lemma hex_digit_ascii: "d < 16 \<Longrightarrow> unat (hex_digit d) < 128"
  by (simp add: unat_hex_digit)

lemma plain_unicode_escape:
  "plain16 (unicode_escape c)"
proof -
  have "unat c < 65536" using unsigned_less [of c, where 'a=nat] by simp
  then have "unat c div 4096 < 16" by simp
  then show ?thesis
    unfolding unicode_escape_def
    by (intro plain16_ascii) (simp add: hex_digit_ascii)
qed

lemma plain_quote_char:
  "\<not> is_high_surrogate c \<Longrightarrow> \<not> is_low_surrogate c \<Longrightarrow>
   plain16 (quote_char c)"
  by (simp add: quote_char_def plain_unicode_escape plain16_simps surrogate_unat)

lemma utf8_quote_chars: "utf8_roundtrip (quote_chars s @ r) = quote_chars s @ utf8_roundtrip r"
proof (induction s rule: quote_chars.induct)
  case 1
  show ?case by simp
next
  case (2 c cs)
  show ?case
  proof (cases "is_high_surrogate c")
    case True
    note hi = this
    show ?thesis
    proof (cases cs)
      case Nil
      with hi show ?thesis by (simp add: utf8_plain [OF plain_unicode_escape])
    next
      case (Cons d ds)
      show ?thesis
      proof (cases "is_low_surrogate d")
        case True
        with hi Cons 2(1) [OF hi Cons True] show ?thesis by simp
      next
        case False
        with hi Cons 2(2) [OF hi Cons False] show ?thesis
          by (simp add: utf8_plain [OF plain_unicode_escape])
      qed
    qed
  next
    case False
    note nhi = this
    show ?thesis
    proof (cases "is_low_surrogate c")
      case True
      with nhi 2(3) [OF nhi True] show ?thesis
        by (simp add: utf8_plain [OF plain_unicode_escape])
    next
      case False
      with nhi 2(4) [OF nhi False] show ?thesis
        by (simp add: utf8_plain [OF plain_quote_char])
    qed
  qed
qed

lemma utf8_QuoteJSONString:
  "utf8_roundtrip (QuoteJSONString s @ r) = QuoteJSONString s @ utf8_roundtrip r"
  by (simp add: QuoteJSONString_def utf8_quote_chars surrogate_unat)

lemma plain16_take_drop: "plain16 s \<Longrightarrow> plain16 (take a s) \<and> plain16 (drop a s)"
  by (auto simp: plain16_def list_all_iff dest: in_set_takeD in_set_dropD)

lemma plain16_zeros: "plain16 (replicate b 0x30)"
  by (rule plain16_ascii) (simp add: list_all_iff)

lemma ascii_format_number:
  assumes "list_all is_digit ds" and "ds \<noteq> []"
  shows "list_all (\<lambda>c. unat c < 128) (format_number ds n)"
proof -
  have d: "is_digit c \<Longrightarrow> unat c < 128" for c
    by (simp add: is_digit_unat)
  have a: "list_all (\<lambda>c. unat c < 128) ds"
    using assms(1) d by (simp add: list_all_iff)
  then have t: "list_all (\<lambda>c. unat c < 128) (take j ds)"
    and dr: "list_all (\<lambda>c. unat c < 128) (drop j ds)" for j
    by (auto simp: list_all_iff dest: in_set_takeD in_set_dropD)
  from a assms(2) have h: "unat (hd ds) < 128" and tl: "list_all (\<lambda>c. unat c < 128) (tl ds)"
    by (cases ds, simp_all)+
  have e: "list_all (\<lambda>c. unat c < 128) (digits_of j)" for j
    using digits_of_digits [of j] d by (simp add: list_all_iff)
  show ?thesis
    using a t dr h tl e by (auto simp: format_number_def Let_def list_all_iff)
qed

lemma plain_number_text: "plain16 (number_text x)"
proof (cases x)
  case (Infinite neg)
  have "plain16 (js ''null'')" by (rule plain16_ascii) (simp add: js_def)
  with Infinite show ?thesis by (simp add: number_text_def)
next
  case (Finite neg m e)
  have f: "plain16 (format_number (digits_of j) n)" for j n
    by (rule plain16_ascii, rule ascii_format_number)
       (simp_all add: digits_of_digits digits_of_nonempty)
  have m: "plain16 [0x2D]" by (rule plain16_ascii) simp
  have z: "plain16 (js ''0'')" by (rule plain16_ascii) (simp add: js_def)
  show ?thesis
    using Finite f m z
    by (simp add: number_text_def Let_def plain16_simps)
qed

lemma utf8_indent: "utf8_roundtrip (indent_str n @ r) = indent_str n @ utf8_roundtrip r"
  by (rule utf8_plain, rule plain16_ascii) (simp add: indent_str_def list_all_iff)

lemma utf8_stringify:
  "utf8_roundtrip (stringify_at n v @ r) = stringify_at n v @ utf8_roundtrip r"
  "utf8_roundtrip (stringify_elems n vs @ r) = stringify_elems n vs @ utf8_roundtrip r"
  "utf8_roundtrip (stringify_members n ps @ r) = stringify_members n ps @ utf8_roundtrip r"
proof (induction n v and n vs and n ps arbitrary: r and r and r
       rule: stringify_at_stringify_elems_stringify_members.induct)
  case (1 n)
  show ?case by (simp add: js_def surrogate_unat)
next
  case (2 n b)
  show ?case by (simp add: js_def surrogate_unat)
next
  case (3 n x)
  show ?case by (simp add: utf8_plain [OF plain_number_text])
next
  case (4 n s)
  show ?case by (simp add: utf8_QuoteJSONString)
next
  case (5 n xs)
  then show ?case by (simp add: js_def surrogate_unat utf8_indent)
next
  case (6 n ps)
  then show ?case by (simp add: js_def surrogate_unat utf8_indent)
next
  case (7 n)
  show ?case by simp
next
  case (8 n x xs)
  then show ?case by (simp add: surrogate_unat utf8_indent)
next
  case (9 n)
  show ?case by simp
next
  case (10 n kv ps)
  then show ?case by (simp add: surrogate_unat utf8_indent utf8_QuoteJSONString)
qed

lemma utf8_JSON_stringify: "utf8_roundtrip (JSON_stringify v) = JSON_stringify v"
  using utf8_stringify(1) [of 0 v "[]"] by (simp add: JSON_stringify_def)


section \<open>Loading and saving\<close>

lemma JSON_parse_empty_array: "JSON_parse (js ''[]'') = Inr (JArr [])"
  by (simp add: JSON_parse_def parse_value.simps skip_ws_def is_json_ws_def js_def)

lemma JSON_parse_empty_text: "JSON_parse [] = Inl SyntaxError"
  by (simp add: JSON_parse_def parse_value.simps skip_ws_def)

lemma readContacts_nothing:
  "readContacts MkdirFails = JArr []"
  "readContacts ReadFails = JArr []"
  "readContacts (Content []) = JArr []"
  by (simp_all add: readContacts_def readContacts_try_def read_data_def
        JSON_parse_empty_array JSON_parse_empty_text)

lemma truthy_contacts: "truthy (contacts_json cs)"
  by (simp add: contacts_json_def)

lemma readContacts_stringify_contacts:
  "readContacts (Content (utf8_roundtrip (JSON_stringify (contacts_json cs)))) = contacts_json cs"
  by (simp add: readContacts_def readContacts_try_def read_data_def utf8_JSON_stringify
        JSON_parse_stringify_contacts truthy_contacts)





lemma JSON_parse_empty_object: "JSON_parse (js ''{}'') = Inr (JObj [])"
  by (simp add: JSON_parse_def parse_value.simps skip_ws_def is_json_ws_def js_def)

lemma contacts_json_Nil: "contacts_json [] = JArr []"
  by (simp add: contacts_json_def)

lemma writeContacts_contacts:
  "writeContacts w (contacts_json cs) a = (a', ok) \<Longrightarrow>
   (ok \<and> w = Written \<and> readContacts a' = contacts_json cs)
   \<or> (\<not> ok \<and> w = FailedUntouched \<and> a' = a)
   \<or> (\<not> ok \<and> w = FailedEmptied \<and> readContacts a' = contacts_json [])"
  by (cases w)
     (auto simp: writeContacts_def readContacts_stringify_contacts readContacts_nothing
        contacts_json_Nil)

text \<open>
  Claim C8.  For every collection \<open>cs\<close> of contact records, a successful
  \<^verbatim>\<open>writeContacts\<close> of the collection followed by \<^verbatim>\<open>readContacts\<close> yields the same
  collection: the same records with the same id, name and phone, in the same order.
\<close>

theorem save_then_load:
  "writeContacts w (contacts_json cs) a = (a', True) \<Longrightarrow> readContacts a' = contacts_json cs"
  by (cases w) (auto simp: writeContacts_def readContacts_stringify_contacts)

theorem save_then_load_witness:
  "snd (writeContacts Written
          (contacts_json [\<lparr>contact_id = js ''1'', contact_name = js ''Ann'', contact_phone = js ''123''\<rparr>])
          ReadFails)
   \<and> readContacts (fst (writeContacts Written
          (contacts_json [\<lparr>contact_id = js ''1'', contact_name = js ''Ann'', contact_phone = js ''123''\<rparr>])
          ReadFails))
       = JArr [JObj [(js ''id'', JStr (js ''1'')), (js ''name'', JStr (js ''Ann'')),
                     (js ''phone'', JStr (js ''123''))]]"
  using save_then_load [of Written
          "[\<lparr>contact_id = js ''1'', contact_name = js ''Ann'', contact_phone = js ''123''\<rparr>]"
          ReadFails
          "fst (writeContacts Written
          (contacts_json [\<lparr>contact_id = js ''1'', contact_name = js ''Ann'', contact_phone = js ''123''\<rparr>])
          ReadFails)"]
  by (simp add: writeContacts_def contacts_json_def contact_json_def)

text \<open>
  Claim C2 says that \<^verbatim>\<open>readContacts\<close> returns the empty sequence whenever the file
  does not hold a valid sequence of contact records.  It does not: the file \<^verbatim>\<open>{}\<close>
  is valid JSON, is not a sequence of contact records, and \<^verbatim>\<open>JSON.parse(data) || []\<close>
  returns the object it holds.
\<close>

theorem load_returns_other_json_counterexample:
  "JSON_parse (js ''{}'') = Inr (JObj [])
   \<and> \<not> is_contact_collection (JObj [])
   \<and> readContacts (Content (js ''{}'')) = JObj []
   \<and> JObj [] \<noteq> JArr []"
  by (simp add: JSON_parse_empty_object is_contact_collection_def readContacts_def
        readContacts_try_def read_data_def)

text \<open>The falsy values: \<^verbatim>\<open>null\<close>, \<^verbatim>\<open>false\<close>, the empty string and the two zeros.\<close>

lemma falsy_values:
  "\<not> truthy v \<longleftrightarrow>
     v = JNull \<or> v = JBool False \<or> v = JStr [] \<or> (\<exists>s e. v = JNum (Finite s 0 e))"
  by (induction v rule: truthy.induct) auto

text \<open>
  Claim C2, amended.  \<^verbatim>\<open>readContacts\<close> never throws: \<open>readContacts\<close> turns every
  throw of \<open>readContacts_try\<close> into the empty sequence.  It returns the empty sequence
  when the data directory cannot be made, when the file is missing or cannot be read,
  when the content of the file is not JSON text, and when it is the JSON text of a falsy
  value (\<^verbatim>\<open>null\<close>, \<^verbatim>\<open>false\<close>, a zero, the empty string).  When the content is the
  JSON text of a truthy value, \<^verbatim>\<open>readContacts\<close> returns that value, whether or not
  it is a sequence of contact records.
\<close>

theorem load_empty_on_failure:
  "(a = MkdirFails \<or> a = ReadFails \<longrightarrow> readContacts a = JArr [])
   \<and> (a = Content d \<and> JSON_parse d = Inl e \<longrightarrow> readContacts a = JArr [])
   \<and> (a = Content d \<and> JSON_parse d = Inr v \<and> \<not> truthy v \<longrightarrow> readContacts a = JArr [])
   \<and> (a = Content d \<and> JSON_parse d = Inr v \<and> truthy v \<longrightarrow> readContacts a = v)"
proof -
  have r: "readContacts (Content d) = (if truthy v then v else JArr [])"
    if "JSON_parse d = Inr v"
    using that by (simp add: readContacts_def readContacts_try_def read_data_def)
  have f: "readContacts (Content d) = JArr []" if "JSON_parse d = Inl e"
    using that by (simp add: readContacts_def readContacts_try_def read_data_def)
  show ?thesis
    using r f readContacts_nothing(1,2) by auto
qed

theorem load_empty_on_failure_witness:
  "readContacts MkdirFails = JArr []
   \<and> readContacts ReadFails = JArr []
   \<and> readContacts (Content (js ''{'')) = JArr []
   \<and> readContacts (Content (js ''null'')) = JArr []
   \<and> readContacts (Content (js ''false'')) = JArr []
   \<and> readContacts (Content (js ''0'')) = JArr []
   \<and> readContacts (Content [0x22, 0x22]) = JArr []
   \<and> readContacts (Content [0x22, 0x61, 0x22]) = JStr [0x61]"
proof -
  have p: "JSON_parse (js ''{'') = Inl SyntaxError"
    "JSON_parse (js ''null'') = Inr JNull"
    "JSON_parse (js ''false'') = Inr (JBool False)"
    "JSON_parse [0x22, 0x22] = Inr (JStr [])"
    "JSON_parse [0x22, 0x61, 0x22] = Inr (JStr [0x61])"
    by (simp_all add: JSON_parse_def parse_value.simps skip_ws_def is_json_ws_def js_def
          starts_with_def)
  have z: "JSON_parse (js ''0'') = Inr (JNum (Finite False 0 (- 1074)))"
    by (simp add: JSON_parse_def parse_value.simps skip_ws_def is_json_ws_def js_def
          starts_with_def parse_number_def is_digit_def parse_fraction_def parse_exponent_def
          decimal_def of_decimal_def to_double_def digits_val_def digit_val_def)
  show ?thesis
    using load_empty_on_failure [of MkdirFails]
      load_empty_on_failure [of ReadFails]
      load_empty_on_failure [of "Content (js ''{'')" "js ''{''" SyntaxError]
      load_empty_on_failure [of "Content (js ''null'')" "js ''null''" _ JNull]
      load_empty_on_failure [of "Content (js ''false'')" "js ''false''" _ "JBool False"]
      load_empty_on_failure [of "Content (js ''0'')" "js ''0''" _ "JNum (Finite False 0 (- 1074))"]
      load_empty_on_failure [of "Content [0x22, 0x22]" "[0x22, 0x22]" _ "JStr []"]
      load_empty_on_failure [of "Content [0x22, 0x61, 0x22]" "[0x22, 0x61, 0x22]" _ "JStr [0x61]"]
      p z
    by simp
qed


section \<open>The handlers on a collection of contact records\<close>

lemma status_reply [simp]: "status (reply n ok msg) = n" "status (reply_data n ok msg d) = n"
  by (simp_all add: reply_def reply_data_def)

lemma returned_id_created:
  "returned_id (reply_data n ok msg (JObj [(js ''contact'', contact_json c)]))
     = Some (JStr (contact_id c))"
  by (simp add: returned_id_def reply_data_def get_prop_def contact_json_def js_def)

lemma get_prop_contact:
  "get_prop (contact_json c) (js ''id'') = Inr (Some (JStr (contact_id c)))"
  by (simp add: get_prop_def contact_json_def)

lemma truthy_contact: "truthy (contact_json c)"
  by (simp add: contact_json_def)

lemma find_by_id_contacts:
  "find_by_id (map contact_json cs) i
     = Inr (map_option contact_json (List.find (\<lambda>c. contact_id c = i) cs))"
  by (induction cs) (simp_all add: get_prop_contact)

lemma findIndex_by_id_contacts_None:
  "i \<notin> contact_id ` set cs \<Longrightarrow> findIndex_by_id (map contact_json cs) i = Inr None"
  by (induction cs) (auto simp: get_prop_contact)

lemma findIndex_by_id_contacts_Some:
  "i \<in> contact_id ` set cs \<Longrightarrow>
   \<exists>n. findIndex_by_id (map contact_json cs) i = Inr (Some n) \<and> n < length cs
       \<and> contact_id (cs ! n) = i \<and> (\<forall>m<n. contact_id (cs ! m) \<noteq> i)"
proof (induction cs)
  case Nil
  then show ?case by simp
next
  case (Cons c cs)
  show ?case
  proof (cases "contact_id c = i")
    case True
    then show ?thesis by (simp add: get_prop_contact)
  next
    case False
    with Cons.prems have "i \<in> contact_id ` set cs" by auto
    from Cons.IH [OF this] obtain n where
      n: "findIndex_by_id (map contact_json cs) i = Inr (Some n)" "n < length cs"
         "contact_id (cs ! n) = i" "\<forall>m<n. contact_id (cs ! m) \<noteq> i"
      by blast
    have "\<forall>m<Suc n. contact_id ((c # cs) ! m) \<noteq> i"
      using False n(4) by (auto simp: less_Suc_eq_0_disj)
    with n False show ?thesis
      by (intro exI [of _ "Suc n"]) (simp add: get_prop_contact)
  qed
qed


lemma filter_not_id_contacts:
  "filter_not_id (map contact_json cs) i
     = Inr (map contact_json (filter (\<lambda>c. contact_id c \<noteq> i) cs))"
  by (induction cs) (simp_all add: get_prop_contact)

lemma find_first:
  "n < length cs \<Longrightarrow> contact_id (cs ! n) = i \<Longrightarrow> \<forall>m<n. contact_id (cs ! m) \<noteq> i \<Longrightarrow>
   List.find (\<lambda>c. contact_id c = i) cs = Some (cs ! n)"
proof (induction cs arbitrary: n)
  case Nil
  then show ?case by simp
next
  case (Cons c cs)
  show ?case
  proof (cases n)
    case 0
    with Cons.prems show ?thesis by simp
  next
    case (Suc k)
    from Cons.prems(3) Suc have c: "contact_id c \<noteq> i" by auto
    from Cons.prems(3) Suc have "\<forall>m<k. contact_id (cs ! m) \<noteq> i" by auto
    with Cons.IH [of k] Cons.prems(1,2) Suc have "List.find (\<lambda>c. contact_id c = i) cs = Some (cs ! k)"
      by simp
    with c Suc show ?thesis by simp
  qed
qed

lemma find_append_new:
  "i \<notin> contact_id ` set cs \<Longrightarrow> contact_id c = i \<Longrightarrow>
   List.find (\<lambda>c. contact_id c = i) (cs @ [c]) = Some c"
  by (induction cs) auto

lemma remove_unique_id:
  "distinct (map contact_id cs) \<Longrightarrow> i \<in> contact_id ` set cs \<Longrightarrow>
   Suc (length (filter (\<lambda>c. contact_id c \<noteq> i) cs)) = length cs"
proof (induction cs)
  case Nil
  then show ?case by simp
next
  case (Cons c cs)
  show ?case
  proof (cases "contact_id c = i")
    case True
    with Cons.prems(1) have "i \<notin> contact_id ` set cs" by auto
    then have "filter (\<lambda>c. contact_id c \<noteq> i) cs = cs"
      by (auto simp: filter_id_conv)
    with True show ?thesis by simp
  next
    case False
    with Cons show ?thesis by auto
  qed
qed

lemma get_contact_contacts:
  assumes "readContacts a = contacts_json cs"
  shows "get_contact i a =
     (case List.find (\<lambda>c. contact_id c = i) cs of
        None \<Rightarrow> reply 404 False msg_not_found
      | Some c \<Rightarrow> reply_data 200 True msg_get_ok (JObj [(js ''contact'', contact_json c)]))"
  using assms
  by (simp add: get_contact_def get_contact_try_def contacts_json_def find_by_id_contacts
        truthy_contact split: option.splits)

lemma post_contact_contacts:
  assumes "readContacts a = contacts_json cs"
    and "get_prop b (js ''name'') = Inr (Some (JStr name))"
    and "get_prop b (js ''phone'') = Inr (Some (JStr phone))"
    and "trim name \<noteq> []" and "trim phone \<noteq> []"
  shows "post_contact w now (Some b) a =
     (let c = \<lparr>contact_id = int_toString now, contact_name = trim name,
                contact_phone = trim phone\<rparr>;
          wr = writeContacts w (contacts_json (cs @ [c])) a
      in (if snd wr then reply_data 201 True msg_add_ok (JObj [(js ''contact'', contact_json c)])
          else reply 500 False msg_add_failed, fst wr))"
  using assms
  by (simp add: post_contact_def post_contact_try_def body_field_def call_trim_def
        contacts_json_def contact_json_def Let_def)

lemma put_contact_contacts:
  assumes "readContacts a = contacts_json cs"
    and "get_prop b (js ''name'') = Inr (Some (JStr name))"
    and "get_prop b (js ''phone'') = Inr (Some (JStr phone))"
    and "trim name \<noteq> []" and "trim phone \<noteq> []" and "i \<noteq> []"
    and "findIndex_by_id (map contact_json cs) i = Inr (Some n)"
  shows "put_contact w i (Some b) a =
     (let c = \<lparr>contact_id = i, contact_name = trim name, contact_phone = trim phone\<rparr>;
          wr = writeContacts w (contacts_json (cs[n := c])) a
      in (if snd wr then reply_data 200 True msg_update_ok (JObj [(js ''contact'', contact_json c)])
          else reply 500 False msg_update_failed, fst wr))"
  using assms
  by (simp add: put_contact_def put_contact_try_def body_field_def call_trim_def
        contacts_json_def contact_json_def Let_def map_update)

lemma delete_contact_contacts:
  assumes "readContacts a = contacts_json cs" and "i \<noteq> []"
  shows "delete_contact w i a =
     (let cs' = filter (\<lambda>c. contact_id c \<noteq> i) cs in
      if length cs' = length cs then (reply 404 False msg_not_found, a)
      else
        let wr = writeContacts w (contacts_json cs') a
        in (if snd wr then reply 200 True msg_delete_ok else reply 500 False msg_delete_failed,
            fst wr))"
  using assms
  by (simp add: delete_contact_def delete_contact_try_def contacts_json_def
        filter_not_id_contacts Let_def)

lemma post_contact_201:
  assumes "get_prop b (js ''name'') = Inr (Some (JStr name))"
    and "get_prop b (js ''phone'') = Inr (Some (JStr phone))"
    and "status (fst (post_contact w now (Some b) a)) = 201"
  shows "trim name \<noteq> []" "trim phone \<noteq> []"
  using assms
  by (auto simp: post_contact_def post_contact_try_def body_field_def call_trim_def
           split: if_splits)

lemma put_contact_200:
  assumes "get_prop b (js ''name'') = Inr (Some (JStr name))"
    and "get_prop b (js ''phone'') = Inr (Some (JStr phone))"
    and "status (fst (put_contact w i (Some b) a)) = 200"
  shows "i \<noteq> []" "trim name \<noteq> []" "trim phone \<noteq> []"
  using assms
  by (auto simp: put_contact_def put_contact_try_def body_field_def call_trim_def
           split: if_splits)

text \<open>
  The file after one request, whatever the request and whatever the write did: it
  holds a collection again, the ids of which are the old ones, or the old ones without
  some, or the old ones and the new one.
\<close>

lemma post_contact_step:
  assumes "readContacts a = contacts_json cs"
    and "post_contact w now b a = (r, a1)"
  shows "(status r = 201
            \<and> (\<exists>c. contact_id c = int_toString now
                    \<and> readContacts a1 = contacts_json (cs @ [c])
                    \<and> r = reply_data 201 True msg_add_ok (JObj [(js ''contact'', contact_json c)])))
       \<or> (status r \<noteq> 201
            \<and> (readContacts a1 = contacts_json cs \<or> readContacts a1 = contacts_json []))"
proof (cases "\<exists>v name phone. b = Some v \<and> get_prop v (js ''name'') = Inr (Some (JStr name))
          \<and> get_prop v (js ''phone'') = Inr (Some (JStr phone))
          \<and> trim name \<noteq> [] \<and> trim phone \<noteq> []")
  case True
  then obtain v name phone where b: "b = Some v"
    and np: "get_prop v (js ''name'') = Inr (Some (JStr name))"
            "get_prop v (js ''phone'') = Inr (Some (JStr phone))"
            "trim name \<noteq> []" "trim phone \<noteq> []"
    by blast
  let ?c = "\<lparr>contact_id = int_toString now, contact_name = trim name, contact_phone = trim phone\<rparr>"
  obtain a'' okw where wr: "writeContacts w (contacts_json (cs @ [?c])) a = (a'', okw)"
    by (cases "writeContacts w (contacts_json (cs @ [?c])) a")
  from post_contact_contacts [OF assms(1) np, of w now] wr assms(2) b
  have r: "r = (if okw then reply_data 201 True msg_add_ok (JObj [(js ''contact'', contact_json ?c)])
               else reply 500 False msg_add_failed)" and a1: "a1 = a''"
    by (auto simp: Let_def)
  show ?thesis
  proof (cases okw)
    case True
    with writeContacts_contacts [OF wr] a1 have "readContacts a1 = contacts_json (cs @ [?c])"
      by simp
    moreover from True r
    have "r = reply_data 201 True msg_add_ok (JObj [(js ''contact'', contact_json ?c)])"
      by simp
    moreover have "contact_id ?c = int_toString now" by simp
    ultimately show ?thesis by (intro disjI1 conjI exI [of _ ?c]) simp_all
  next
    case False
    with writeContacts_contacts [OF wr] r a1 assms(1) show ?thesis by auto
  qed
next
  case False
  with assms(2) have "a1 = a" and "status r \<noteq> 201"
    by (auto simp: post_contact_def post_contact_try_def body_field_def call_trim_def
          split: option.splits sum.splits json.splits if_splits)
  with assms(1) show ?thesis by simp
qed

lemma put_contact_step:
  assumes "readContacts a = contacts_json cs"
    and "put_contact w i b a = (r, a1)"
  shows "\<exists>cs'. readContacts a1 = contacts_json cs'
            \<and> (map contact_id cs' = map contact_id cs \<or> cs' = [])"
proof (cases "\<exists>v name phone n. b = Some v \<and> get_prop v (js ''name'') = Inr (Some (JStr name))
          \<and> get_prop v (js ''phone'') = Inr (Some (JStr phone))
          \<and> trim name \<noteq> [] \<and> trim phone \<noteq> [] \<and> i \<noteq> []
          \<and> findIndex_by_id (map contact_json cs) i = Inr (Some n)")
  case True
  then obtain v name phone n where b: "b = Some v"
    and np: "get_prop v (js ''name'') = Inr (Some (JStr name))"
            "get_prop v (js ''phone'') = Inr (Some (JStr phone))"
            "trim name \<noteq> []" "trim phone \<noteq> []" "i \<noteq> []"
            "findIndex_by_id (map contact_json cs) i = Inr (Some n)"
    by blast
  let ?c = "\<lparr>contact_id = i, contact_name = trim name, contact_phone = trim phone\<rparr>"
  have mem: "i \<in> contact_id ` set cs"
    using findIndex_by_id_contacts_None [of i cs] np(6) by auto
  from findIndex_by_id_contacts_Some [OF mem] np(6)
  have n: "n < length cs" "contact_id (cs ! n) = i" by auto
  have ids: "map contact_id (cs[n := ?c]) = map contact_id cs"
    using n by (simp add: map_update list_update_same_conv)
  obtain a'' okw where wr: "writeContacts w (contacts_json (cs[n := ?c])) a = (a'', okw)"
    by (cases "writeContacts w (contacts_json (cs[n := ?c])) a")
  from put_contact_contacts [OF assms(1) np, of w] wr assms(2) b
  have a1: "a1 = a''"
    by (auto simp: Let_def)
  from writeContacts_contacts [OF wr] a1 assms(1) ids show ?thesis
    by auto
next
  case False
  with assms have "a1 = a"
    by (auto simp: put_contact_def put_contact_try_def body_field_def call_trim_def
          contacts_json_def
          split: option.splits sum.splits json.splits if_splits)
  with assms(1) show ?thesis by auto
qed

lemma delete_contact_step:
  assumes "readContacts a = contacts_json cs"
    and "delete_contact w i a = (r, a1)"
  shows "\<exists>cs'. readContacts a1 = contacts_json cs'
            \<and> (cs' = cs \<or> cs' = filter (\<lambda>c. contact_id c \<noteq> i) cs \<or> cs' = [])"
proof (cases "i = []")
  case True
  with assms show ?thesis
    by (auto simp: delete_contact_def delete_contact_try_def)
next
  case False
  let ?cs' = "filter (\<lambda>c. contact_id c \<noteq> i) cs"
  obtain a'' okw where wr: "writeContacts w (contacts_json ?cs') a = (a'', okw)"
    by (cases "writeContacts w (contacts_json ?cs') a")
  from delete_contact_contacts [OF assms(1) False, of w] wr assms(2)
  have "a1 = a \<or> a1 = a''"
    by (auto simp: Let_def split: if_splits)
  with writeContacts_contacts [OF wr] assms(1) show ?thesis
    by auto
qed

text \<open>
Requests with the bodies and ids used as examples below.
\<close>

lemma body_props:
  "get_prop (JObj [(js ''name'', JStr n), (js ''phone'', JStr p)]) (js ''name'') = Inr (Some (JStr n))"
  "get_prop (JObj [(js ''name'', JStr n), (js ''phone'', JStr p)]) (js ''phone'') = Inr (Some (JStr p))"
  by (simp_all add: get_prop_def js_def)


lemma example_strings:
  "trim (js ''A'') = js ''A''" "trim (js ''B'') = js ''B''"
  "trim (js ''1'') = js ''1''" "trim (js ''2'') = js ''2''"
  "int_toString 5 = js ''5''" "int_toString 6 = js ''6''"
  "js ''A'' \<noteq> []" "js ''B'' \<noteq> []" "js ''1'' \<noteq> []" "js ''2'' \<noteq> []" "js ''5'' \<noteq> []"
  "js ''5'' \<noteq> js ''6''" "js ''1'' \<noteq> js ''2''"
  by (simp_all add: trim_def js_def is_js_space_def int_toString_def digits_of.simps digit_char_def)

lemma more_example_strings: "js ''6'' \<noteq> []" "js ''6'' \<noteq> js ''5''" "js ''5'' \<noteq> js ''6''"
  by (simp_all add: js_def)

lemma post_contact_written:
  assumes "readContacts a = contacts_json cs" and "trim n \<noteq> []" and "trim p \<noteq> []"
  shows "post_contact Written now (Some (JObj [(js ''name'', JStr n), (js ''phone'', JStr p)])) a =
     (reply_data 201 True msg_add_ok
        (JObj [(js ''contact'',
                contact_json \<lparr>contact_id = int_toString now, contact_name = trim n,
                              contact_phone = trim p\<rparr>)]),
      Content (utf8_roundtrip (JSON_stringify (contacts_json
        (cs @ [\<lparr>contact_id = int_toString now, contact_name = trim n,
                  contact_phone = trim p\<rparr>])))))"
  using post_contact_contacts [OF assms(1) body_props assms(2,3), of Written now]
  by (simp add: writeContacts_def Let_def)

lemma put_contact_written:
  assumes "readContacts a = contacts_json cs" and "trim n \<noteq> []" and "trim p \<noteq> []" and "i \<noteq> []"
    and "findIndex_by_id (map contact_json cs) i = Inr (Some k)"
  shows "put_contact Written i (Some (JObj [(js ''name'', JStr n), (js ''phone'', JStr p)])) a =
     (reply_data 200 True msg_update_ok
        (JObj [(js ''contact'',
                contact_json \<lparr>contact_id = i, contact_name = trim n, contact_phone = trim p\<rparr>)]),
      Content (utf8_roundtrip (JSON_stringify (contacts_json
        (cs[k := \<lparr>contact_id = i, contact_name = trim n, contact_phone = trim p\<rparr>])))))"
  using put_contact_contacts [OF assms(1) body_props assms(2,3,4,5), of Written]
  by (simp add: writeContacts_def Let_def)

lemma first_add:
  "post_contact Written 5 (Some (JObj [(js ''name'', JStr (js ''A'')), (js ''phone'', JStr (js ''1''))])) ReadFails =
     (reply_data 201 True msg_add_ok
        (JObj [(js ''contact'',
                contact_json \<lparr>contact_id = js ''5'', contact_name = js ''A'', contact_phone = js ''1''\<rparr>)]),
      Content (utf8_roundtrip (JSON_stringify (contacts_json
        [\<lparr>contact_id = js ''5'', contact_name = js ''A'', contact_phone = js ''1''\<rparr>]))))"
  using post_contact_written [of ReadFails "[]" "js ''A''" "js ''1''" 5]
  by (simp add: readContacts_nothing contacts_json_Nil example_strings)

lemma second_add:
  "post_contact Written t (Some (JObj [(js ''name'', JStr (js ''B'')), (js ''phone'', JStr (js ''2''))]))
     (Content (utf8_roundtrip (JSON_stringify (contacts_json
        [\<lparr>contact_id = js ''5'', contact_name = js ''A'', contact_phone = js ''1''\<rparr>])))) =
     (reply_data 201 True msg_add_ok
        (JObj [(js ''contact'',
                contact_json \<lparr>contact_id = int_toString t, contact_name = js ''B'', contact_phone = js ''2''\<rparr>)]),
      Content (utf8_roundtrip (JSON_stringify (contacts_json
        [\<lparr>contact_id = js ''5'', contact_name = js ''A'', contact_phone = js ''1''\<rparr>,
         \<lparr>contact_id = int_toString t, contact_name = js ''B'', contact_phone = js ''2''\<rparr>]))))"
  using post_contact_written [OF readContacts_stringify_contacts,
          where n = "js ''B''" and p = "js ''2''" and now = t]
  by (simp add: example_strings)

lemma update_example:
  "put_contact Written (js ''5'') (Some (JObj [(js ''name'', JStr (js ''B'')), (js ''phone'', JStr (js ''2''))]))
     (Content (utf8_roundtrip (JSON_stringify (contacts_json
        [\<lparr>contact_id = js ''5'', contact_name = js ''A'', contact_phone = js ''1''\<rparr>])))) =
     (reply_data 200 True msg_update_ok
        (JObj [(js ''contact'',
                contact_json \<lparr>contact_id = js ''5'', contact_name = js ''B'', contact_phone = js ''2''\<rparr>)]),
      Content (utf8_roundtrip (JSON_stringify (contacts_json
        [\<lparr>contact_id = js ''5'', contact_name = js ''B'', contact_phone = js ''2''\<rparr>]))))"
  using put_contact_written [OF readContacts_stringify_contacts,
          where n = "js ''B''" and p = "js ''2''" and i = "js ''5''" and k = 0
            and cs = "[\<lparr>contact_id = js ''5'', contact_name = js ''A'', contact_phone = js ''1''\<rparr>]"]
  by (simp add: example_strings get_prop_contact)

lemma delete_example:
  "delete_contact Written (js ''5'')
     (Content (utf8_roundtrip (JSON_stringify (contacts_json
        [\<lparr>contact_id = js ''5'', contact_name = js ''A'', contact_phone = js ''1''\<rparr>])))) =
     (reply 200 True msg_delete_ok,
      Content (utf8_roundtrip (JSON_stringify (contacts_json []))))"
  using delete_contact_contacts [OF readContacts_stringify_contacts,
          where i = "js ''5''" and w = Written
            and cs = "[\<lparr>contact_id = js ''5'', contact_name = js ''A'', contact_phone = js ''1''\<rparr>]"]
  by (simp add: example_strings writeContacts_def Let_def)

lemma get_example:
  "get_contact (js ''5'')
     (Content (utf8_roundtrip (JSON_stringify (contacts_json
        (\<lparr>contact_id = js ''5'', contact_name = n, contact_phone = p\<rparr> # cs))))) =
   reply_data 200 True msg_get_ok
     (JObj [(js ''contact'', contact_json \<lparr>contact_id = js ''5'', contact_name = n, contact_phone = p\<rparr>)])"
  by (simp add: get_contact_contacts [OF readContacts_stringify_contacts])

lemma one_contact_file:
  "readContacts (Content (utf8_roundtrip (JSON_stringify (contacts_json [c])))) = contacts_json [c]"
  by (rule readContacts_stringify_contacts)



section \<open>Validation of the request body\<close>

text \<open>
  Claim C7.  When the body carries strings \<open>name\<close> and \<open>phone\<close> and one of them is
  empty after trimming, \<^verbatim>\<open>POST /api/contacts\<close> answers 400 with the validation
  message and leaves the data file as it is, whatever the file holds and whatever a
  write would have done: the file is neither read nor written.
\<close>

theorem add_rejects_blank:
  assumes "get_prop b (js ''name'') = Inr (Some (JStr name))"
    and "get_prop b (js ''phone'') = Inr (Some (JStr phone))"
    and "trim name = [] \<or> trim phone = []"
  shows "post_contact w now (Some b) a = (reply 400 False msg_name_phone_empty, a)"
  using assms
  by (auto simp: post_contact_def post_contact_try_def body_field_def call_trim_def)

theorem add_rejects_blank_witness:
  "post_contact Written 5 (Some (JObj [(js ''name'', JStr []), (js ''phone'', JStr (js ''555''))])) ReadFails
     = (reply 400 False msg_name_phone_empty, ReadFails)"
  using add_rejects_blank [of "JObj [(js ''name'', JStr []), (js ''phone'', JStr (js ''555''))]"
          "[]" "js ''555''" Written 5 ReadFails]
  by (simp add: get_prop_def js_def trim_def)

text \<open>
  Claim C9 says that a body without \<^verbatim>\<open>name\<close> or \<^verbatim>\<open>phone\<close>, or with a value
  that is not a string for either, is always answered with 500.  It is not: when
  \<^verbatim>\<open>name\<close> is a string that is empty after trimming, \<^verbatim>\<open>!name.trim()\<close> decides the
  check, \<^verbatim>\<open>phone.trim()\<close> is never called, and the answer is 400 although the body has
  no \<^verbatim>\<open>phone\<close>.
\<close>

theorem missing_phone_counterexample:
  "get_prop (JObj [(js ''name'', JStr [])]) (js ''phone'') = Inr None
   \<and> status (fst (post_contact Written 5 (Some (JObj [(js ''name'', JStr [])])) ReadFails)) = 400
   \<and> status (fst (put_contact Written (js ''1'') (Some (JObj [(js ''name'', JStr [])])) ReadFails)) = 400"
  by (simp add: get_prop_def js_def post_contact_def post_contact_try_def put_contact_def
        put_contact_try_def body_field_def call_trim_def trim_def)

text \<open>
  Claim C9, amended.  For a body object in which \<^verbatim>\<open>name\<close> or \<^verbatim>\<open>phone\<close> is
  missing or is not a string, \<^verbatim>\<open>POST\<close>, and \<^verbatim>\<open>PUT\<close> with an id that is not empty,
  answer 500 with the failure message of the handler and leave the file as it is,
  unless \<^verbatim>\<open>name\<close> is a string that is empty after trimming: then they answer 400
  with the validation message.
\<close>

theorem bad_body_responses:
  assumes "get_prop v (js ''name'') = Inr x"
    and "get_prop v (js ''phone'') = Inr y"
    and "\<not> is_string x \<or> \<not> is_string y"
    and "i \<noteq> []"
  shows "post_contact w now (Some v) a =
           (if blank_string x then reply 400 False msg_name_phone_empty
            else reply 500 False msg_add_failed, a)
       \<and> put_contact w i (Some v) a =
           (if blank_string x then reply 400 False msg_id_name_phone_empty
            else reply 500 False msg_update_failed, a)"
  using assms
  by (auto simp: post_contact_def post_contact_try_def put_contact_def put_contact_try_def
        body_field_def call_trim_def is_string_def blank_string_def
      split: option.splits json.splits)

theorem bad_body_responses_witness:
  "post_contact Written 5 (Some (JObj [(js ''phone'', JStr (js ''123''))])) ReadFails =
     (reply 500 False msg_add_failed, ReadFails)
   \<and> put_contact Written (js ''1'') (Some (JObj [(js ''phone'', JStr (js ''123''))])) ReadFails =
     (reply 500 False msg_update_failed, ReadFails)"
  using bad_body_responses [of "JObj [(js ''phone'', JStr (js ''123''))]" None
          "Some (JStr (js ''123''))" "js ''1''" Written 5 ReadFails]
  by (simp add: get_prop_def js_def is_string_def blank_string_def)


section \<open>The response envelope\<close>

lemma envelope_reply:
  "has_envelope (reply n ok msg)" "has_envelope (reply_data n ok msg d)"
  "is_success (reply n ok msg) = ok" "is_success (reply_data n ok msg d) = ok"
  "\<not> has_data (reply n ok msg)" "has_data (reply_data n ok msg d)"
  by (simp_all add: has_envelope_def is_success_def has_data_def reply_def reply_data_def
        get_prop_def js_def)

lemma get_contacts_envelope:
  "has_envelope (get_contacts a)" "is_success (get_contacts a)" "has_data (get_contacts a)"
  by (simp_all add: get_contacts_def envelope_reply)

lemma get_contact_envelope:
  "has_envelope (get_contact i a)" "is_success (get_contact i a) = has_data (get_contact i a)"
  by (auto simp: get_contact_def get_contact_try_def envelope_reply
           split: sum.splits option.splits json.splits)

lemma post_contact_envelope:
  "has_envelope (fst (post_contact w now b a))"
  "is_success (fst (post_contact w now b a)) = has_data (fst (post_contact w now b a))"
  by (auto simp: post_contact_def post_contact_try_def envelope_reply Let_def
           split: sum.splits option.splits json.splits)

lemma put_contact_envelope:
  "has_envelope (fst (put_contact w i b a))"
  "is_success (fst (put_contact w i b a)) = has_data (fst (put_contact w i b a))"
  by (auto simp: put_contact_def put_contact_try_def envelope_reply Let_def
           split: sum.splits option.splits json.splits)

lemma delete_contact_envelope:
  "has_envelope (fst (delete_contact w i a))"
  "\<not> has_data (fst (delete_contact w i a))"
  by (auto simp: delete_contact_def delete_contact_try_def envelope_reply Let_def
           split: sum.splits option.splits json.splits)

text \<open>
  Claim C3 says that every successful response carries \<^verbatim>\<open>data\<close>.  The successful
  response of \<^verbatim>\<open>DELETE\<close> is \<^verbatim>\<open>{ success: true, message }\<close>, without
  \<^verbatim>\<open>data\<close>.
\<close>

theorem delete_reply_has_no_data_counterexample:
  "is_success (fst (delete_contact Written (js ''1'')
      (Content (utf8_roundtrip (JSON_stringify (contacts_json
         [\<lparr>contact_id = js ''1'', contact_name = js ''Ann'', contact_phone = js ''123''\<rparr>]))))))
   \<and> \<not> has_data (fst (delete_contact Written (js ''1'')
      (Content (utf8_roundtrip (JSON_stringify (contacts_json
         [\<lparr>contact_id = js ''1'', contact_name = js ''Ann'', contact_phone = js ''123''\<rparr>]))))))"
proof -
  have ne: "js ''1'' \<noteq> []" by (simp add: js_def)
  show ?thesis
    by (simp add: delete_contact_contacts [OF one_contact_file ne] writeContacts_def
          envelope_reply)
qed

text \<open>
  Claim C3, amended.  Every response of the five handlers is a JSON object with a
  boolean \<^verbatim>\<open>success\<close> and a string \<^verbatim>\<open>message\<close>; every successful response of the
  two \<^verbatim>\<open>GET\<close> handlers, of \<^verbatim>\<open>POST\<close> and of \<^verbatim>\<open>PUT\<close> also has \<^verbatim>\<open>data\<close>; no
  response of \<^verbatim>\<open>DELETE\<close> has \<^verbatim>\<open>data\<close>.
\<close>

theorem response_envelope:
  "has_envelope (get_contacts a)
   \<and> has_envelope (get_contact i a)
   \<and> has_envelope (fst (post_contact w now b a))
   \<and> has_envelope (fst (put_contact w i b a))
   \<and> has_envelope (fst (delete_contact w i a))
   \<and> is_success (get_contacts a) \<and> has_data (get_contacts a)
   \<and> (is_success (get_contact i a) \<longrightarrow> has_data (get_contact i a))
   \<and> (is_success (fst (post_contact w now b a)) \<longrightarrow> has_data (fst (post_contact w now b a)))
   \<and> (is_success (fst (put_contact w i b a)) \<longrightarrow> has_data (fst (put_contact w i b a)))
   \<and> \<not> has_data (fst (delete_contact w i a))"
  by (simp add: get_contacts_envelope get_contact_envelope post_contact_envelope
        put_contact_envelope delete_contact_envelope)

theorem response_envelope_witness:
  "is_success (get_contact (js ''5'')
      (Content (utf8_roundtrip (JSON_stringify (contacts_json
        [\<lparr>contact_id = js ''5'', contact_name = js ''A'', contact_phone = js ''1''\<rparr>])))))
   \<and> has_data (get_contact (js ''5'')
      (Content (utf8_roundtrip (JSON_stringify (contacts_json
        [\<lparr>contact_id = js ''5'', contact_name = js ''A'', contact_phone = js ''1''\<rparr>])))))
   \<and> is_success (fst (post_contact Written 6
      (Some (JObj [(js ''name'', JStr (js ''B'')), (js ''phone'', JStr (js ''2''))]))
      (Content (utf8_roundtrip (JSON_stringify (contacts_json
        [\<lparr>contact_id = js ''5'', contact_name = js ''A'', contact_phone = js ''1''\<rparr>]))))))
   \<and> has_data (fst (post_contact Written 6
      (Some (JObj [(js ''name'', JStr (js ''B'')), (js ''phone'', JStr (js ''2''))]))
      (Content (utf8_roundtrip (JSON_stringify (contacts_json
        [\<lparr>contact_id = js ''5'', contact_name = js ''A'', contact_phone = js ''1''\<rparr>]))))))
   \<and> is_success (fst (put_contact Written (js ''5'')
      (Some (JObj [(js ''name'', JStr (js ''B'')), (js ''phone'', JStr (js ''2''))]))
      (Content (utf8_roundtrip (JSON_stringify (contacts_json
        [\<lparr>contact_id = js ''5'', contact_name = js ''A'', contact_phone = js ''1''\<rparr>]))))))
   \<and> has_data (fst (put_contact Written (js ''5'')
      (Some (JObj [(js ''name'', JStr (js ''B'')), (js ''phone'', JStr (js ''2''))]))
      (Content (utf8_roundtrip (JSON_stringify (contacts_json
        [\<lparr>contact_id = js ''5'', contact_name = js ''A'', contact_phone = js ''1''\<rparr>]))))))"
  using response_envelope [of
      "Content (utf8_roundtrip (JSON_stringify (contacts_json
        [\<lparr>contact_id = js ''5'', contact_name = js ''A'', contact_phone = js ''1''\<rparr>])))"
      "js ''5''" Written 6
      "Some (JObj [(js ''name'', JStr (js ''B'')), (js ''phone'', JStr (js ''2''))])"]
  by (simp add: get_example second_add update_example envelope_reply)


section \<open>Add, update and delete\<close>

text \<open>
  Claim C4 says that a successful \<^verbatim>\<open>POST\<close> followed by \<^verbatim>\<open>GET\<close> of the returned id
  returns the added name and phone.  The id is the clock reading: a second addition at
  the same reading returns the id of the first record, and \<^verbatim>\<open>find\<close> then returns the
  first record.
\<close>

theorem add_then_get_older_record_counterexample:
  "status (fst (post_contact Written 5
       (Some (JObj [(js ''name'', JStr (js ''B'')), (js ''phone'', JStr (js ''2''))]))
       (snd (post_contact Written 5
          (Some (JObj [(js ''name'', JStr (js ''A'')), (js ''phone'', JStr (js ''1''))])) ReadFails)))) = 201
   \<and> returned_id (fst (post_contact Written 5
       (Some (JObj [(js ''name'', JStr (js ''B'')), (js ''phone'', JStr (js ''2''))]))
       (snd (post_contact Written 5
          (Some (JObj [(js ''name'', JStr (js ''A'')), (js ''phone'', JStr (js ''1''))])) ReadFails)))) =
       Some (JStr (js ''5''))
   \<and> get_contact (js ''5'') (snd (post_contact Written 5
       (Some (JObj [(js ''name'', JStr (js ''B'')), (js ''phone'', JStr (js ''2''))]))
       (snd (post_contact Written 5
          (Some (JObj [(js ''name'', JStr (js ''A'')), (js ''phone'', JStr (js ''1''))])) ReadFails)))) =
       reply_data 200 True msg_get_ok
         (JObj [(js ''contact'',
                 contact_json \<lparr>contact_id = js ''5'', contact_name = js ''A'', contact_phone = js ''1''\<rparr>)])
   \<and> trim (js ''B'') \<noteq> js ''A''"
  by (simp add: first_add second_add [of 5] returned_id_created get_example example_strings)
     (simp add: js_def)

text \<open>
  Claim C4, amended.  On a file that holds a collection of contact records none of
  which has the id that the addition assigns (the decimal clock reading), a successful
  \<^verbatim>\<open>POST\<close> with strings \<open>name\<close> and \<open>phone\<close> returns the record with the trimmed
  name and phone, and \<^verbatim>\<open>GET\<close> of its id then returns that same record.
\<close>

theorem add_then_get:
  assumes "readContacts a = contacts_json cs"
    and "get_prop b (js ''name'') = Inr (Some (JStr name))"
    and "get_prop b (js ''phone'') = Inr (Some (JStr phone))"
    and "int_toString now \<notin> contact_id ` set cs"
    and "post_contact w now (Some b) a = (r, a')"
    and "status r = 201"
  shows "r = reply_data 201 True msg_add_ok
             (JObj [(js ''contact'',
                     contact_json \<lparr>contact_id = int_toString now, contact_name = trim name,
                                   contact_phone = trim phone\<rparr>)])
       \<and> get_contact (int_toString now) a' =
           reply_data 200 True msg_get_ok
             (JObj [(js ''contact'',
                     contact_json \<lparr>contact_id = int_toString now, contact_name = trim name,
                                   contact_phone = trim phone\<rparr>)])"
proof -
  let ?c = "\<lparr>contact_id = int_toString now, contact_name = trim name, contact_phone = trim phone\<rparr>"
  have ok: "status (fst (post_contact w now (Some b) a)) = 201"
    using assms(5,6) by simp
  note valid = post_contact_201 [OF assms(2,3) ok]
  obtain a'' okw where wr: "writeContacts w (contacts_json (cs @ [?c])) a = (a'', okw)"
    by (cases "writeContacts w (contacts_json (cs @ [?c])) a")
  from post_contact_contacts [OF assms(1,2,3) valid, of w now] wr assms(5,6)
  have okw and a': "a' = a''"
    and r: "r = reply_data 201 True msg_add_ok (JObj [(js ''contact'', contact_json ?c)])"
    by (auto simp: Let_def split: if_splits)
  from writeContacts_contacts [OF wr] \<open>okw\<close> a'
  have rd: "readContacts a' = contacts_json (cs @ [?c])" by simp
  from find_append_new [OF assms(4), of ?c] get_contact_contacts [OF rd, of "int_toString now"]
  have "get_contact (int_toString now) a' =
          reply_data 200 True msg_get_ok (JObj [(js ''contact'', contact_json ?c)])"
    by simp
  with r show ?thesis by simp
qed

theorem add_then_get_witness:
  "get_contact (js ''5'') (snd (post_contact Written 5
       (Some (JObj [(js ''name'', JStr (js ''A'')), (js ''phone'', JStr (js ''1''))])) ReadFails)) =
       reply_data 200 True msg_get_ok
         (JObj [(js ''contact'',
                 contact_json \<lparr>contact_id = js ''5'', contact_name = js ''A'', contact_phone = js ''1''\<rparr>)])"
  using add_then_get [of ReadFails "[]"
          "JObj [(js ''name'', JStr (js ''A'')), (js ''phone'', JStr (js ''1''))]" "js ''A''" "js ''1''"
          5 Written
          "fst (post_contact Written 5
            (Some (JObj [(js ''name'', JStr (js ''A'')), (js ''phone'', JStr (js ''1''))])) ReadFails)"
          "snd (post_contact Written 5
            (Some (JObj [(js ''name'', JStr (js ''A'')), (js ''phone'', JStr (js ''1''))])) ReadFails)"]
  by (simp add: readContacts_nothing contacts_json_Nil body_props first_add example_strings)

text \<open>
  Claim C5.  On a file that holds a collection of contact records, a successful
  \<^verbatim>\<open>PUT\<close> of id \<open>i\<close> with strings \<open>name\<close> and \<open>phone\<close> replaces the first record
  with that id, at its position \<open>n\<close>, by the record with the same id and the trimmed
  name and phone; every other record stays as and where it was, and \<^verbatim>\<open>GET\<close> of
  \<open>i\<close> then returns the new record.
\<close>

theorem update_frame:
  assumes "readContacts a = contacts_json cs"
    and "get_prop b (js ''name'') = Inr (Some (JStr name))"
    and "get_prop b (js ''phone'') = Inr (Some (JStr phone))"
    and "put_contact w i (Some b) a = (r, a')"
    and "status r = 200"
  shows "\<exists>n<length cs.
           contact_id (cs ! n) = i \<and> (\<forall>m<n. contact_id (cs ! m) \<noteq> i)
         \<and> readContacts a' =
             contacts_json (cs[n := \<lparr>contact_id = i, contact_name = trim name,
                                     contact_phone = trim phone\<rparr>])
         \<and> get_contact i a' =
             reply_data 200 True msg_get_ok
               (JObj [(js ''contact'',
                       contact_json \<lparr>contact_id = i, contact_name = trim name,
                                     contact_phone = trim phone\<rparr>)])"
proof -
  let ?c = "\<lparr>contact_id = i, contact_name = trim name, contact_phone = trim phone\<rparr>"
  have ok: "status (fst (put_contact w i (Some b) a)) = 200"
    using assms(4,5) by simp
  note valid = put_contact_200 [OF assms(2,3) ok]
  have "i \<in> contact_id ` set cs"
  proof (rule ccontr)
    assume "i \<notin> contact_id ` set cs"
    from findIndex_by_id_contacts_None [OF this] ok assms(1,2,3) valid show False
      by (simp add: put_contact_def put_contact_try_def body_field_def call_trim_def
            contacts_json_def)
  qed
  from findIndex_by_id_contacts_Some [OF this] obtain n where
    n: "findIndex_by_id (map contact_json cs) i = Inr (Some n)" "n < length cs"
       "contact_id (cs ! n) = i" "\<forall>m<n. contact_id (cs ! m) \<noteq> i"
    by blast
  obtain a'' okw where wr: "writeContacts w (contacts_json (cs[n := ?c])) a = (a'', okw)"
    by (cases "writeContacts w (contacts_json (cs[n := ?c])) a")
  from put_contact_contacts [OF assms(1,2,3) valid(2,3,1) n(1), of w] wr assms(4,5)
  have okw and a': "a' = a''"
    by (auto simp: Let_def split: if_splits)
  from writeContacts_contacts [OF wr] \<open>okw\<close> a'
  have rd: "readContacts a' = contacts_json (cs[n := ?c])" by simp
  have "\<forall>m<n. contact_id (cs[n := ?c] ! m) \<noteq> i" using n(4) by simp
  with find_first [of n "cs[n := ?c]" i] n(2)
  have "List.find (\<lambda>c. contact_id c = i) (cs[n := ?c]) = Some ?c" by simp
  with get_contact_contacts [OF rd, of i]
  have "get_contact i a' = reply_data 200 True msg_get_ok (JObj [(js ''contact'', contact_json ?c)])"
    by simp
  with n rd show ?thesis by blast
qed

theorem update_frame_witness:
  "readContacts (snd (put_contact Written (js ''5'')
      (Some (JObj [(js ''name'', JStr (js ''B'')), (js ''phone'', JStr (js ''2''))]))
      (Content (utf8_roundtrip (JSON_stringify (contacts_json
        [\<lparr>contact_id = js ''5'', contact_name = js ''A'', contact_phone = js ''1''\<rparr>]))))))
     = contacts_json [\<lparr>contact_id = js ''5'', contact_name = js ''B'', contact_phone = js ''2''\<rparr>]
   \<and> get_contact (js ''5'') (snd (put_contact Written (js ''5'')
      (Some (JObj [(js ''name'', JStr (js ''B'')), (js ''phone'', JStr (js ''2''))]))
      (Content (utf8_roundtrip (JSON_stringify (contacts_json
        [\<lparr>contact_id = js ''5'', contact_name = js ''A'', contact_phone = js ''1''\<rparr>]))))))
     = reply_data 200 True msg_get_ok
         (JObj [(js ''contact'',
                 contact_json \<lparr>contact_id = js ''5'', contact_name = js ''B'', contact_phone = js ''2''\<rparr>)])"
  using update_frame [of
      "Content (utf8_roundtrip (JSON_stringify (contacts_json
        [\<lparr>contact_id = js ''5'', contact_name = js ''A'', contact_phone = js ''1''\<rparr>])))"
      "[\<lparr>contact_id = js ''5'', contact_name = js ''A'', contact_phone = js ''1''\<rparr>]"
      "JObj [(js ''name'', JStr (js ''B'')), (js ''phone'', JStr (js ''2''))]" "js ''B''" "js ''2''"
      Written "js ''5''"
      "fst (put_contact Written (js ''5'')
        (Some (JObj [(js ''name'', JStr (js ''B'')), (js ''phone'', JStr (js ''2''))]))
        (Content (utf8_roundtrip (JSON_stringify (contacts_json
          [\<lparr>contact_id = js ''5'', contact_name = js ''A'', contact_phone = js ''1''\<rparr>])))))"
      "snd (put_contact Written (js ''5'')
        (Some (JObj [(js ''name'', JStr (js ''B'')), (js ''phone'', JStr (js ''2''))]))
        (Content (utf8_roundtrip (JSON_stringify (contacts_json
          [\<lparr>contact_id = js ''5'', contact_name = js ''A'', contact_phone = js ''1''\<rparr>])))))"]
  by (simp add: readContacts_stringify_contacts body_props update_example example_strings)



lemma delete_removes:
  assumes "readContacts a = contacts_json cs"
    and "distinct (map contact_id cs)"
    and "delete_contact w i a = (r, a')"
    and "status r = 200"
  shows "i \<in> contact_id ` set cs
       \<and> readContacts a' = contacts_json (filter (\<lambda>c. contact_id c \<noteq> i) cs)
       \<and> Suc (length (filter (\<lambda>c. contact_id c \<noteq> i) cs)) = length cs
       \<and> get_contact i a' = reply 404 False msg_not_found"
proof -
  let ?cs' = "filter (\<lambda>c. contact_id c \<noteq> i) cs"
  have i: "i \<noteq> []"
    using assms(3,4) by (auto simp: delete_contact_def delete_contact_try_def)
  note d = delete_contact_contacts [OF assms(1) i, of w]
  have ne: "length ?cs' \<noteq> length cs"
    using d assms(3,4) by (auto simp: Let_def)
  then have mem: "i \<in> contact_id ` set cs"
    by (metis (mono_tags, lifting) filter_True image_eqI)
  obtain a'' okw where wr: "writeContacts w (contacts_json ?cs') a = (a'', okw)"
    by (cases "writeContacts w (contacts_json ?cs') a")
  from d ne wr assms(3,4) have okw and a': "a' = a''"
    by (auto simp: Let_def split: if_splits)
  from writeContacts_contacts [OF wr] \<open>okw\<close> a'
  have rd: "readContacts a' = contacts_json ?cs'" by simp
  have "List.find (\<lambda>c. contact_id c = i) ?cs' = None"
    by (simp add: find_None_iff)
  with get_contact_contacts [OF rd, of i]
  have g: "get_contact i a' = reply 404 False msg_not_found" by simp
  have "Suc (length ?cs') = length cs"
    by (rule remove_unique_id [OF assms(2) mem])
  with mem rd g show ?thesis by simp
qed

lemma delete_absent:
  assumes "readContacts a = contacts_json cs" and "i \<notin> contact_id ` set cs" and "i \<noteq> []"
  shows "delete_contact w i a = (reply 404 False msg_not_found, a)"
proof -
  have "filter (\<lambda>c. contact_id c \<noteq> i) cs = cs"
    using assms(2) by (auto simp: filter_id_conv)
  with delete_contact_contacts [OF assms(1,3), of w] show ?thesis by simp
qed

text \<open>
  The handler tests the id first and answers 400 when it is empty.  The route
  \<^verbatim>\<open>/api/contacts/:id\<close> matches no request with an empty id, so the test never
  succeeds on a request that the router passes to the handler.
\<close>

lemma delete_empty_id: "delete_contact w [] a = (reply 400 False msg_id_empty, a)"
  by (simp add: delete_contact_def delete_contact_try_def)

text \<open>
  Claim C6.  On a file that holds contact records with pairwise distinct ids, for the
  ids that the router passes on (the not empty ones): a successful \<^verbatim>\<open>DELETE\<close> of \<open>i\<close>
  had a record with that id to remove, leaves the collection without the records of
  that id, shorter by exactly one, and \<^verbatim>\<open>GET\<close> of \<open>i\<close> then answers 404; when no
  record has the id \<open>i\<close>, \<^verbatim>\<open>DELETE\<close> answers 404 and leaves the file as it is.
\<close>

theorem delete_effect:
  assumes "readContacts a = contacts_json cs"
    and "distinct (map contact_id cs)"
    and "i \<noteq> []"
  shows "(delete_contact w i a = (r, a') \<and> status r = 200 \<longrightarrow>
            i \<in> contact_id ` set cs
          \<and> readContacts a' = contacts_json (filter (\<lambda>c. contact_id c \<noteq> i) cs)
          \<and> Suc (length (filter (\<lambda>c. contact_id c \<noteq> i) cs)) = length cs
          \<and> get_contact i a' = reply 404 False msg_not_found)
       \<and> (i \<notin> contact_id ` set cs \<longrightarrow>
            delete_contact w i a = (reply 404 False msg_not_found, a))"
proof (intro conjI impI)
  assume "i \<notin> contact_id ` set cs"
  then show "delete_contact w i a = (reply 404 False msg_not_found, a)"
    using delete_absent [OF assms(1) _ assms(3)] by simp
next
  assume d: "delete_contact w i a = (r, a') \<and> status r = 200"
  from delete_removes [OF assms(1,2), of w i r a'] d
  show "i \<in> contact_id ` set cs"
    and "readContacts a' = contacts_json (filter (\<lambda>c. contact_id c \<noteq> i) cs)"
    and "Suc (length (filter (\<lambda>c. contact_id c \<noteq> i) cs)) = length cs"
    and "get_contact i a' = reply 404 False msg_not_found"
    by simp_all
qed

theorem delete_effect_witness:
  "readContacts (snd (delete_contact Written (js ''5'')
      (Content (utf8_roundtrip (JSON_stringify (contacts_json
        [\<lparr>contact_id = js ''5'', contact_name = js ''A'', contact_phone = js ''1''\<rparr>]))))))
     = contacts_json []
   \<and> get_contact (js ''5'') (snd (delete_contact Written (js ''5'')
      (Content (utf8_roundtrip (JSON_stringify (contacts_json
        [\<lparr>contact_id = js ''5'', contact_name = js ''A'', contact_phone = js ''1''\<rparr>]))))))
     = reply 404 False msg_not_found
   \<and> delete_contact Written (js ''6'')
      (Content (utf8_roundtrip (JSON_stringify (contacts_json
        [\<lparr>contact_id = js ''5'', contact_name = js ''A'', contact_phone = js ''1''\<rparr>]))))
     = (reply 404 False msg_not_found,
        Content (utf8_roundtrip (JSON_stringify (contacts_json
          [\<lparr>contact_id = js ''5'', contact_name = js ''A'', contact_phone = js ''1''\<rparr>]))))"
  using delete_effect [of
      "Content (utf8_roundtrip (JSON_stringify (contacts_json
        [\<lparr>contact_id = js ''5'', contact_name = js ''A'', contact_phone = js ''1''\<rparr>])))"
      "[\<lparr>contact_id = js ''5'', contact_name = js ''A'', contact_phone = js ''1''\<rparr>]"
      "js ''5''" Written "reply 200 True msg_delete_ok"
      "Content (utf8_roundtrip (JSON_stringify (contacts_json [])))"]
    delete_effect [of
      "Content (utf8_roundtrip (JSON_stringify (contacts_json
        [\<lparr>contact_id = js ''5'', contact_name = js ''A'', contact_phone = js ''1''\<rparr>])))"
      "[\<lparr>contact_id = js ''5'', contact_name = js ''A'', contact_phone = js ''1''\<rparr>]"
      "js ''6''" Written]
    more_example_strings
  by (simp add: readContacts_stringify_contacts delete_example get_contact_contacts)


section \<open>Uniqueness of ids\<close>

lemma unchanged_ids:
  "readContacts a = contacts_json cs \<Longrightarrow>
   \<exists>cs1. readContacts a = contacts_json cs1
        \<and> (\<exists>p. map contact_id cs1 = filter p (map contact_id cs))"
  by (intro exI [of _ cs] conjI exI [of _ "\<lambda>_. True"]) simp_all

lemma handle_step:
  assumes "readContacts a = contacts_json cs"
    and "handle e rq a = (r, a1)"
  shows "\<exists>cs1. readContacts a1 = contacts_json cs1
          \<and> (if is_post rq \<and> status r = 201
              then map contact_id cs1 = map contact_id cs @ [int_toString (clock e)]
                   \<and> returned_id r = Some (JStr (int_toString (clock e)))
              else \<exists>p. map contact_id cs1 = filter p (map contact_id cs))"
proof (cases rq)
  case GetContacts
  with assms have "a1 = a" by simp
  with unchanged_ids [OF assms(1)] GetContacts show ?thesis by (simp add: is_post_def)
next
  case (GetContact i)
  with assms have "a1 = a" by simp
  with unchanged_ids [OF assms(1)] GetContact show ?thesis by (simp add: is_post_def)
next
  case (PostContact b)
  with assms(2) have p: "post_contact (write_result e) (clock e) b a = (r, a1)" by simp
  from post_contact_step [OF assms(1) p] show ?thesis
  proof (elim disjE conjE exE)
    fix c
    assume "status r = 201" "contact_id c = int_toString (clock e)"
      "readContacts a1 = contacts_json (cs @ [c])"
      "r = reply_data 201 True msg_add_ok (JObj [(js ''contact'', contact_json c)])"
    then show ?thesis
      using PostContact by (intro exI [of _ "cs @ [c]"]) (simp add: is_post_def returned_id_created)
  next
    assume "status r \<noteq> 201" "readContacts a1 = contacts_json cs"
    moreover have "\<exists>p. map contact_id cs = filter p (map contact_id cs)"
      by (rule exI [of _ "\<lambda>_. True"]) simp
    ultimately show ?thesis by (intro exI [of _ cs]) simp
  next
    assume "status r \<noteq> 201" "readContacts a1 = contacts_json []"
    moreover have "\<exists>p. map contact_id [] = filter p (map contact_id cs)"
      by (rule exI [of _ "\<lambda>_. False"]) simp
    ultimately show ?thesis by (intro exI [of _ "[]"]) simp
  qed
next
  case (PutContact i b)
  with assms(2) have p: "put_contact (write_result e) i b a = (r, a1)" by simp
  from put_contact_step [OF assms(1) p] obtain cs' where
    cs': "readContacts a1 = contacts_json cs'" "map contact_id cs' = map contact_id cs \<or> cs' = []"
    by blast
  have "\<exists>p. map contact_id cs' = filter p (map contact_id cs)"
  proof (cases "cs' = []")
    case True
    have "map contact_id [] = filter (\<lambda>_. False) (map contact_id cs)" by simp
    with True show ?thesis by blast
  next
    case False
    with cs'(2) have "map contact_id cs' = filter (\<lambda>_. True) (map contact_id cs)" by simp
    then show ?thesis by blast
  qed
  with cs'(1) PutContact show ?thesis by (auto simp: is_post_def)
next
  case (DeleteContact i)
  with assms(2) have p: "delete_contact (write_result e) i a = (r, a1)" by simp
  from delete_contact_step [OF assms(1) p] obtain cs' where
    cs': "readContacts a1 = contacts_json cs'"
         "cs' = cs \<or> cs' = filter (\<lambda>c. contact_id c \<noteq> i) cs \<or> cs' = []"
    by blast
  have 1: "map contact_id cs = filter (\<lambda>_. True) (map contact_id cs)" by simp
  have 2: "map contact_id (filter (\<lambda>c. contact_id c \<noteq> i) cs) = filter (\<lambda>x. x \<noteq> i) (map contact_id cs)"
    by (simp add: filter_map comp_def)
  have 3: "map contact_id [] = filter (\<lambda>_. False) (map contact_id cs)" by simp
  from cs'(2) 1 2 3 have "\<exists>p. map contact_id cs' = filter p (map contact_id cs)"
    by metis
  with cs'(1) DeleteContact show ?thesis by (auto simp: is_post_def)
qed

lemma run_keeps_ids_distinct:
  assumes "readContacts a = contacts_json cs"
    and "distinct (map contact_id cs)"
    and "set (map contact_id cs) \<subseteq> int_toString ` S"
    and "distinct (map fst (additions a ops))"
    and "fst ` set (additions a ops) \<inter> S = {}"
  shows "(\<exists>cs'. readContacts (snd (run a ops)) = contacts_json cs' \<and> distinct (map contact_id cs'))
       \<and> (\<forall>tr \<in> set (additions a ops). returned_id (snd tr) = Some (JStr (int_toString (fst tr))))"
  using assms
proof (induction ops arbitrary: a cs S)
  case Nil
  then show ?case by auto
next
  case (Cons er ops)
  obtain r a1 where h: "handle (fst er) (snd er) a = (r, a1)"
    by (cases "handle (fst er) (snd er) a")
  from handle_step [OF Cons.prems(1) h] obtain cs1 where
    rd: "readContacts a1 = contacts_json cs1"
    and st: "if is_post (snd er) \<and> status r = 201
              then map contact_id cs1 = map contact_id cs @ [int_toString (clock (fst er))]
                   \<and> returned_id r = Some (JStr (int_toString (clock (fst er))))
              else \<exists>p. map contact_id cs1 = filter p (map contact_id cs)"
    by blast
  have run: "snd (run a (er # ops)) = snd (run a1 ops)"
    using h by (simp add: Let_def)
  show ?case
  proof (cases "is_post (snd er) \<and> status r = 201")
    case True
    let ?t = "clock (fst er)"
    have adds: "additions a (er # ops) = (?t, r) # additions a1 ops"
      using h True by (simp add: Let_def)
    from st True have ids: "map contact_id cs1 = map contact_id cs @ [int_toString ?t]"
      and ret: "returned_id r = Some (JStr (int_toString ?t))" by simp_all
    from Cons.prems(5) adds have tS: "?t \<notin> S" by auto
    have fresh: "int_toString ?t \<notin> set (map contact_id cs)"
    proof
      assume "int_toString ?t \<in> set (map contact_id cs)"
      with Cons.prems(3) obtain s where "s \<in> S" "int_toString ?t = int_toString s" by auto
      with int_toString_inj [of ?t s] tS show False by simp
    qed
    have d1: "distinct (map contact_id cs1)"
      using ids Cons.prems(2) fresh by simp
    have s1: "set (map contact_id cs1) \<subseteq> int_toString ` (insert ?t S)"
      using ids Cons.prems(3) by auto
    have d2: "distinct (map fst (additions a1 ops))"
      using Cons.prems(4) adds by simp
    have s2: "fst ` set (additions a1 ops) \<inter> insert ?t S = {}"
      using Cons.prems(4,5) adds by auto
    from Cons.IH [OF rd d1 s1 d2 s2] run adds ret show ?thesis by simp
  next
    case False
    have adds: "additions a (er # ops) = additions a1 ops"
      using h False by (simp add: Let_def)
    from st False obtain p where ids: "map contact_id cs1 = filter p (map contact_id cs)"
      by auto
    have d1: "distinct (map contact_id cs1)"
      using ids Cons.prems(2) by simp
    have s1: "set (map contact_id cs1) \<subseteq> int_toString ` S"
      using ids Cons.prems(3) by auto
    from Cons.IH [OF rd d1 s1] Cons.prems(4,5) run adds show ?thesis by simp
  qed
qed

text \<open>
  Claim C1 says that the ids stay pairwise distinct along every sequence of requests
  that starts from an empty collection.  The id of a new record is
  \<^verbatim>\<open>Date.now().toString()\<close>: two additions that read the same clock value store two
  records with the same id and return that id twice.
\<close>

theorem same_clock_same_id_counterexample:
  "readContacts (snd (run ReadFails
      [(\<lparr>clock = 5, write_result = Written\<rparr>,
        PostContact (Some (JObj [(js ''name'', JStr (js ''A'')), (js ''phone'', JStr (js ''1''))]))),
       (\<lparr>clock = 5, write_result = Written\<rparr>,
        PostContact (Some (JObj [(js ''name'', JStr (js ''B'')), (js ''phone'', JStr (js ''2''))])))]))
   = contacts_json
       [\<lparr>contact_id = js ''5'', contact_name = js ''A'', contact_phone = js ''1''\<rparr>,
        \<lparr>contact_id = js ''5'', contact_name = js ''B'', contact_phone = js ''2''\<rparr>]
   \<and> map (\<lambda>tr. returned_id (snd tr)) (additions ReadFails
      [(\<lparr>clock = 5, write_result = Written\<rparr>,
        PostContact (Some (JObj [(js ''name'', JStr (js ''A'')), (js ''phone'', JStr (js ''1''))]))),
       (\<lparr>clock = 5, write_result = Written\<rparr>,
        PostContact (Some (JObj [(js ''name'', JStr (js ''B'')), (js ''phone'', JStr (js ''2''))])))])
     = [Some (JStr (js ''5'')), Some (JStr (js ''5''))]"
  by (simp add: first_add second_add [of 5] Let_def readContacts_stringify_contacts is_post_def
        returned_id_created example_strings)

text \<open>
  Claim C1, amended.  Along every sequence of requests that starts from a file with an
  empty collection, and in which the successful additions read pairwise distinct clock
  values, the file always holds a collection of contact records with pairwise distinct
  ids; every successful addition returns the decimal clock reading as id, so the
  returned ids are pairwise distinct as well.
\<close>

theorem ids_distinct_with_distinct_clocks:
  assumes "readContacts a = JArr []"
    and "distinct (map fst (additions a ops))"
  shows "(\<exists>cs. readContacts (snd (run a ops)) = contacts_json cs \<and> distinct (map contact_id cs))
       \<and> (\<forall>tr \<in> set (additions a ops). returned_id (snd tr) = Some (JStr (int_toString (fst tr))))
       \<and> distinct (map (\<lambda>tr. returned_id (snd tr)) (additions a ops))"
proof -
  have a: "readContacts a = contacts_json []" using assms(1) by (simp add: contacts_json_Nil)
  from run_keeps_ids_distinct [OF a, of "{}" ops] assms(2)
  have 1: "\<exists>cs. readContacts (snd (run a ops)) = contacts_json cs \<and> distinct (map contact_id cs)"
    and 2: "\<forall>tr \<in> set (additions a ops). returned_id (snd tr) = Some (JStr (int_toString (fst tr)))"
    by simp_all
  from 2 have "map (\<lambda>tr. returned_id (snd tr)) (additions a ops)
                 = map (\<lambda>t. Some (JStr (int_toString t))) (map fst (additions a ops))"
    by simp
  moreover have "inj_on (\<lambda>t. Some (JStr (int_toString t))) (set (map fst (additions a ops)))"
    by (auto simp: inj_on_def dest: int_toString_inj)
  ultimately have "distinct (map (\<lambda>tr. returned_id (snd tr)) (additions a ops))"
    using assms(2) by (simp only: distinct_map)
  with 1 2 show ?thesis by blast
qed

theorem ids_distinct_with_distinct_clocks_witness:
  "(\<exists>cs. readContacts (snd (run ReadFails
      [(\<lparr>clock = 5, write_result = Written\<rparr>,
        PostContact (Some (JObj [(js ''name'', JStr (js ''A'')), (js ''phone'', JStr (js ''1''))]))),
       (\<lparr>clock = 6, write_result = Written\<rparr>,
        PostContact (Some (JObj [(js ''name'', JStr (js ''B'')), (js ''phone'', JStr (js ''2''))])))]))
         = contacts_json cs \<and> distinct (map contact_id cs))
   \<and> map (\<lambda>tr. returned_id (snd tr)) (additions ReadFails
      [(\<lparr>clock = 5, write_result = Written\<rparr>,
        PostContact (Some (JObj [(js ''name'', JStr (js ''A'')), (js ''phone'', JStr (js ''1''))]))),
       (\<lparr>clock = 6, write_result = Written\<rparr>,
        PostContact (Some (JObj [(js ''name'', JStr (js ''B'')), (js ''phone'', JStr (js ''2''))])))])
     = [Some (JStr (js ''5'')), Some (JStr (js ''6''))]"
  using ids_distinct_with_distinct_clocks [of ReadFails
      "[(\<lparr>clock = 5, write_result = Written\<rparr>,
        PostContact (Some (JObj [(js ''name'', JStr (js ''A'')), (js ''phone'', JStr (js ''1''))]))),
       (\<lparr>clock = 6, write_result = Written\<rparr>,
        PostContact (Some (JObj [(js ''name'', JStr (js ''B'')), (js ''phone'', JStr (js ''2''))])))]"]
  by (simp add: first_add second_add [of 6] Let_def readContacts_nothing is_post_def
        returned_id_created example_strings)

end
